theory Spec2Isabelle
  imports Complex_Main "HOL-Library.Word" "HOL-Library.Monad_Syntax"
begin

unbundle bit_operations_syntax

section \<open>Machine integers of the C sources\<close>

text \<open>
  The list code (\<^verbatim>\<open>src/list.c\<close>) computes with \<^verbatim>\<open>int64_t\<close>. Signed overflow is
  undefined behaviour in C, so the model computes on \<open>int\<close> and makes every arithmetic
  step of the source a checked one: a result outside the 64-bit signed range is \<open>None\<close>.
  Throughout the list model \<open>None\<close> therefore means "the call has no defined result"
  (signed overflow, an access outside the allocated block, or a loop that never ends),
  and \<open>Some r\<close> means the call returns \<open>r\<close>.
\<close>

definition INT64_MAX :: int where
  "INT64_MAX = 9223372036854775807"

definition INT64_MIN :: int where
  "INT64_MIN = - 9223372036854775808"

definition in_int64 :: "int \<Rightarrow> bool" where
  "in_int64 x \<longleftrightarrow> INT64_MIN \<le> x \<and> x \<le> INT64_MAX"

definition add64 :: "int \<Rightarrow> int \<Rightarrow> int option" where
  "add64 a b = (if in_int64 (a + b) then Some (a + b) else None)"

definition sub64 :: "int \<Rightarrow> int \<Rightarrow> int option" where
  "sub64 a b = (if in_int64 (a - b) then Some (a - b) else None)"

definition mul64 :: "int \<Rightarrow> int \<Rightarrow> int option" where
  "mul64 a b = (if in_int64 (a * b) then Some (a * b) else None)"

text \<open>The quotient of C's \<^verbatim>\<open>/\<close> on integers, which drops the fractional part.\<close>

definition trunc_div :: "int \<Rightarrow> int \<Rightarrow> int" where
  "trunc_div a b = (if (a < 0) = (b < 0) then \<bar>a\<bar> div \<bar>b\<bar> else - (\<bar>a\<bar> div \<bar>b\<bar>))"

definition div64 :: "int \<Rightarrow> int \<Rightarrow> int option" where
  "div64 a b = (if b = 0 \<or> \<not> in_int64 (trunc_div a b) then None else Some (trunc_div a b))"

text \<open>\<^verbatim>\<open>#define SCU_MAX(a, b) (((a) > (b)) ? (a) : (b))\<close> from \<^verbatim>\<open>SCU/math.h\<close>.\<close>

definition SCU_MAX :: "int \<Rightarrow> int \<Rightarrow> int" where
  "SCU_MAX a b = (if a > b then a else b)"

section \<open>Error codes and the allocator\<close>

datatype SCUError =
    SCU_ERROR_NONE
  | SCU_ERROR_INVALID_ARGUMENT
  | SCU_ERROR_OUT_OF_MEMORY
  | SCU_ERROR_END_OF_FILE
  | SCU_ERROR_READING_STREAM_FAILED
  | SCU_ERROR_WRITING_BUFFER_FAILED

type_synonym byte = "8 word"

text \<open>
  \<^verbatim>\<open>SCU_MALLOC\<close> and \<^verbatim>\<open>SCU_REALLOC\<close> are the C library's \<^verbatim>\<open>malloc\<close> and
  \<^verbatim>\<open>realloc\<close>. Whether a request succeeds, and what the fresh bytes hold, is decided
  outside the program; every operation that may allocate calls the allocator at most once
  and takes the allocator's answer to that call as a parameter: \<open>None\<close> is the null
  pointer (out of memory), \<open>Some g\<close> is a block whose uninitialised byte at offset \<open>k\<close>
  reads \<open>g k\<close>. The sizes below count the bytes of the item region only; the constant
  \<^verbatim>\<open>sizeof(SCUHeader)\<close> that the source adds is the room of the three header fields.
\<close>

type_synonym alloc = "(nat \<Rightarrow> byte) option"

definition SCU_MALLOC :: "int \<Rightarrow> alloc \<Rightarrow> byte list option" where
  "SCU_MALLOC nbytes mem = (case mem of None \<Rightarrow> None | Some g \<Rightarrow> Some (map g [0..<nat nbytes]))"

text \<open>A successful reallocation keeps the old bytes up to the smaller of the two sizes.\<close>

definition SCU_REALLOC :: "byte list \<Rightarrow> int \<Rightarrow> alloc \<Rightarrow> byte list option" where
  "SCU_REALLOC old nbytes mem =
     (case mem of
        None \<Rightarrow> None
      | Some g \<Rightarrow> Some (map (\<lambda>k. if k < length old then old ! k else g k) [0..<nat nbytes]))"

text \<open>
  \<^verbatim>\<open>memmove(items + dst, items + src, n)\<close> inside one block: the source range is read
  before anything is written, so overlapping ranges are safe. A range that leaves the block
  is an out-of-bounds access.
\<close>

definition memmove :: "byte list \<Rightarrow> int \<Rightarrow> int \<Rightarrow> int \<Rightarrow> byte list option" where
  "memmove block dst src n =
     (if 0 \<le> dst \<and> 0 \<le> src \<and> 0 \<le> n \<and> dst + n \<le> int (length block) \<and> src + n \<le> int (length block)
      then Some (take (nat dst) block @ take (nat n) (drop (nat src) block) @ drop (nat (dst + n)) block)
      else None)"

text \<open>
  \<^verbatim>\<open>memcpy(items + dst, src, n)\<close>: \<open>src\<close> is the byte sequence the source pointer
  points to at the moment of the copy, \<open>None\<close> when there is none to read. Reading past
  its end, or reading nothing valid, is undefined.
\<close>

definition memcpy :: "byte list \<Rightarrow> int \<Rightarrow> byte list option \<Rightarrow> int \<Rightarrow> byte list option" where
  "memcpy block dst src n =
     (case src of
        None \<Rightarrow> None
      | Some bytes \<Rightarrow>
          if 0 \<le> dst \<and> 0 \<le> n \<and> dst + n \<le> int (length block) \<and> n \<le> int (length bytes)
          then Some (take (nat dst) block @ take (nat n) bytes @ drop (nat (dst + n)) block)
          else None)"

text \<open>
  The \<^verbatim>\<open>items\<close> argument of the range operations, which the public macros hand on as
  the caller wrote it: the null pointer, a pointer to an object of the caller outside the
  block of the list (with the bytes of that object), or a pointer into the item region of
  the list itself, at a byte offset from its start.
\<close>

datatype SCUPointer = Null | Object "byte list" | Inside int

text \<open>
  What \<^verbatim>\<open>memcpy\<close> reads through such a pointer when it copies \<open>n\<close> bytes to offset
  \<open>dst\<close> of \<open>block\<close>. The source reads the pointer after
  \<^verbatim>\<open>scu_list_ensureCapacityInternal\<close> (and in \<^verbatim>\<open>scu_list_insertRangeInternal\<close>
  after the \<^verbatim>\<open>memmove\<close>), so a pointer into the list reads the bytes that are in the
  block at that moment. After a reallocation (\<open>relocated\<close>) a pointer into the old block
  is dangling, and \<^verbatim>\<open>memcpy\<close> between overlapping ranges is undefined.
\<close>

definition scu_pointee :: "SCUPointer \<Rightarrow> bool \<Rightarrow> byte list \<Rightarrow> int \<Rightarrow> int \<Rightarrow> byte list option" where
  "scu_pointee p relocated block dst n =
     (case p of
        Null \<Rightarrow> None
      | Object bytes \<Rightarrow> Some bytes
      | Inside off \<Rightarrow>
          if relocated \<or> off < 0 \<or> int (length block) < off \<or> (off < dst + n \<and> dst < off + n)
          then None
          else Some (drop (nat off) block))"

section \<open>The list: header and item region\<close>

text \<open>
  \<^verbatim>\<open>struct SCUHeader\<close>: the three header fields and the flexible array member
  \<open>items\<close>, here the bytes of the item region of the current block.
\<close>

record SCUHeader =
  capacity :: int
  count :: int
  itemSize :: int
  items :: "byte list"

definition SCU_INITIAL_CAPACITY :: int where
  "SCU_INITIAL_CAPACITY = 8"

text \<open>\<^verbatim>\<open>scu_list_itemAt\<close>: the byte offset of item \<open>index\<close> from the start of \<open>items\<close>.\<close>

definition scu_list_itemAt :: "SCUHeader \<Rightarrow> int \<Rightarrow> int option" where
  "scu_list_itemAt header index = mul64 index (itemSize header)"

text \<open>
  \<^verbatim>\<open>scu_list_withCapacityInternal\<close>: the outer \<open>option\<close> is definedness, the inner one
  the returned pointer (\<open>None\<close> is \<^verbatim>\<open>nullptr\<close>).
\<close>

definition scu_list_withCapacityInternal :: "int \<Rightarrow> int \<Rightarrow> alloc \<Rightarrow> SCUHeader option option" where
  "scu_list_withCapacityInternal cap isize mem =
     (if cap < 0 \<or> isize \<le> 0 then Some None
      else do {
        nbytes \<leftarrow> mul64 cap isize;
        Some (case SCU_MALLOC nbytes mem of
                None \<Rightarrow> None
              | Some block \<Rightarrow>
                  Some \<lparr>capacity = cap, count = 0, itemSize = isize, items = block\<rparr>)
      })"

definition scu_list_newInternal :: "int \<Rightarrow> alloc \<Rightarrow> SCUHeader option option" where
  "scu_list_newInternal isize mem = scu_list_withCapacityInternal SCU_INITIAL_CAPACITY isize mem"

definition scu_list_capacityInternal :: "SCUHeader \<Rightarrow> int" where
  "scu_list_capacityInternal list = capacity list"

definition scu_list_countInternal :: "SCUHeader \<Rightarrow> int" where
  "scu_list_countInternal list = count list"

definition scu_list_itemSizeInternal :: "SCUHeader \<Rightarrow> int" where
  "scu_list_itemSizeInternal list = itemSize list"

definition scu_list_isEmptyInternal :: "SCUHeader \<Rightarrow> bool" where
  "scu_list_isEmptyInternal list \<longleftrightarrow> count list = 0"

text \<open>
  The operations below follow \<^verbatim>\<open>src/list.c\<close> statement by statement. The list that the
  C functions reach through the pointer \<^verbatim>\<open>list\<close> (and replace through
  \<^verbatim>\<open>*list\<close> after a reallocation) is passed in and returned with the error code.
  Every \<^verbatim>\<open>+\<close>, \<^verbatim>\<open>-\<close> and \<^verbatim>\<open>*\<close> of the source on \<^verbatim>\<open>int64_t\<close> is one
  checked step, in the order the source evaluates them (the \<^verbatim>\<open>||\<close> of the argument
  checks stops at the first true operand).
\<close>

text \<open>
  The growth loop of \<^verbatim>\<open>scu_list_ensureCapacityInternal\<close>:
  \<^verbatim>\<open>while (newCapacity < capacity) newCapacity = (newCapacity * 3 / 2) + 1;\<close>
  It does not end from every start (\<open>-2\<close> and \<open>-3\<close> are fixed points of the step), so
  it is a partial function; the source starts it at \<open>SCU_MAX(capacity, 8)\<close>.
\<close>

partial_function (option) scu_grow_loop :: "int \<Rightarrow> int \<Rightarrow> int option" where
  "scu_grow_loop newCapacity cap =
     (if newCapacity < cap
      then do {
        t \<leftarrow> mul64 newCapacity 3;
        d \<leftarrow> div64 t 2;
        n \<leftarrow> add64 d 1;
        scu_grow_loop n cap
      }
      else Some newCapacity)"

definition scu_list_ensureCapacityInternal ::
    "SCUHeader \<Rightarrow> int \<Rightarrow> alloc \<Rightarrow> (SCUError \<times> SCUHeader) option" where
  "scu_list_ensureCapacityInternal header cap mem =
     (if cap < 0 then Some (SCU_ERROR_INVALID_ARGUMENT, header)
      else if capacity header < cap then do {
        newCapacity \<leftarrow> scu_grow_loop (SCU_MAX (capacity header) SCU_INITIAL_CAPACITY) cap;
        nbytes \<leftarrow> mul64 newCapacity (itemSize header);
        (case SCU_REALLOC (items header) nbytes mem of
           None \<Rightarrow> Some (SCU_ERROR_OUT_OF_MEMORY, header)
         | Some block \<Rightarrow>
             Some (SCU_ERROR_NONE, header\<lparr>capacity := newCapacity, items := block\<rparr>))
      }
      else Some (SCU_ERROR_NONE, header))"

text \<open>
  The \<^verbatim>\<open>item\<close> of \<^verbatim>\<open>scu_list_add\<close> and \<^verbatim>\<open>scu_list_insertAt\<close>: the public
  macros pass \<^verbatim>\<open>&(typeof(item)) { item }\<close>, the address of a fresh copy outside the
  block of the list, so the item is the byte sequence of that object.
\<close>

definition scu_list_addInternal ::
    "SCUHeader \<Rightarrow> byte list \<Rightarrow> alloc \<Rightarrow> (SCUError \<times> SCUHeader) option" where
  "scu_list_addInternal header item mem = do {
     need \<leftarrow> add64 (count header) 1;
     (error, header') \<leftarrow> scu_list_ensureCapacityInternal header need mem;
     if error \<noteq> SCU_ERROR_NONE then Some (error, header')
     else do {
       dst \<leftarrow> scu_list_itemAt header' (count header');
       block \<leftarrow> memcpy (items header') dst (Some item) (itemSize header');
       c \<leftarrow> add64 (count header') 1;
       Some (SCU_ERROR_NONE, header'\<lparr>count := c, items := block\<rparr>)
     }
   }"

definition scu_list_addRangeInternal ::
    "SCUHeader \<Rightarrow> SCUPointer \<Rightarrow> int \<Rightarrow> alloc \<Rightarrow> (SCUError \<times> SCUHeader) option" where
  "scu_list_addRangeInternal header src n mem =
     (if n < 0 then Some (SCU_ERROR_INVALID_ARGUMENT, header)
      else if n > 0 then do {
        need \<leftarrow> add64 (count header) n;
        (error, header') \<leftarrow> scu_list_ensureCapacityInternal header need mem;
        if error \<noteq> SCU_ERROR_NONE then Some (error, header')
        else do {
          dst \<leftarrow> scu_list_itemAt header' (count header');
          len \<leftarrow> mul64 n (itemSize header');
          block \<leftarrow> memcpy (items header') dst
                    (scu_pointee src (capacity header' \<noteq> capacity header) (items header') dst len) len;
          c \<leftarrow> add64 (count header') n;
          Some (SCU_ERROR_NONE, header'\<lparr>count := c, items := block\<rparr>)
        }
      }
      else Some (SCU_ERROR_NONE, header))"

definition scu_list_insertAtInternal ::
    "SCUHeader \<Rightarrow> int \<Rightarrow> byte list \<Rightarrow> alloc \<Rightarrow> (SCUError \<times> SCUHeader) option" where
  "scu_list_insertAtInternal header index item mem =
     (if index < 0 \<or> index > count header then Some (SCU_ERROR_INVALID_ARGUMENT, header)
      else do {
        need \<leftarrow> add64 (count header) 1;
        (error, header') \<leftarrow> scu_list_ensureCapacityInternal header need mem;
        if error \<noteq> SCU_ERROR_NONE then Some (error, header')
        else do {
          i1 \<leftarrow> add64 index 1;
          dst \<leftarrow> scu_list_itemAt header' i1;
          src \<leftarrow> scu_list_itemAt header' index;
          k \<leftarrow> sub64 (count header') index;
          len \<leftarrow> mul64 k (itemSize header');
          moved \<leftarrow> memmove (items header') dst src len;
          block \<leftarrow> memcpy moved src (Some item) (itemSize header');
          c \<leftarrow> add64 (count header') 1;
          Some (SCU_ERROR_NONE, header'\<lparr>count := c, items := block\<rparr>)
        }
      })"

definition scu_list_insertRangeInternal ::
    "SCUHeader \<Rightarrow> int \<Rightarrow> SCUPointer \<Rightarrow> int \<Rightarrow> alloc \<Rightarrow> (SCUError \<times> SCUHeader) option" where
  "scu_list_insertRangeInternal header index src n mem =
     (if index < 0 \<or> index > count header \<or> n < 0 then Some (SCU_ERROR_INVALID_ARGUMENT, header)
      else if n > 0 then do {
        need \<leftarrow> add64 (count header) n;
        (error, header') \<leftarrow> scu_list_ensureCapacityInternal header need mem;
        if error \<noteq> SCU_ERROR_NONE then Some (error, header')
        else do {
          i1 \<leftarrow> add64 index n;
          dst \<leftarrow> scu_list_itemAt header' i1;
          pos \<leftarrow> scu_list_itemAt header' index;
          k \<leftarrow> sub64 (count header') index;
          len \<leftarrow> mul64 k (itemSize header');
          moved \<leftarrow> memmove (items header') dst pos len;
          total \<leftarrow> mul64 n (itemSize header');
          block \<leftarrow> memcpy moved pos
                    (scu_pointee src (capacity header' \<noteq> capacity header) moved pos total) total;
          c \<leftarrow> add64 (count header') n;
          Some (SCU_ERROR_NONE, header'\<lparr>count := c, items := block\<rparr>)
        }
      }
      else Some (SCU_ERROR_NONE, header))"

definition scu_list_removeAtInternal :: "SCUHeader \<Rightarrow> int \<Rightarrow> (SCUError \<times> SCUHeader) option" where
  "scu_list_removeAtInternal header index =
     (if index < 0 \<or> index \<ge> count header then Some (SCU_ERROR_INVALID_ARGUMENT, header)
      else do {
        dst \<leftarrow> scu_list_itemAt header index;
        i1 \<leftarrow> add64 index 1;
        src \<leftarrow> scu_list_itemAt header i1;
        k \<leftarrow> sub64 (count header) index;
        k1 \<leftarrow> sub64 k 1;
        len \<leftarrow> mul64 k1 (itemSize header);
        block \<leftarrow> memmove (items header) dst src len;
        c \<leftarrow> sub64 (count header) 1;
        Some (SCU_ERROR_NONE, header\<lparr>count := c, items := block\<rparr>)
      })"

definition scu_list_removeRangeInternal ::
    "SCUHeader \<Rightarrow> int \<Rightarrow> int \<Rightarrow> (SCUError \<times> SCUHeader) option" where
  "scu_list_removeRangeInternal header index n =
     (if index < 0 \<or> n < 0 then Some (SCU_ERROR_INVALID_ARGUMENT, header)
      else do {
        stop \<leftarrow> add64 index n;
        if stop > count header then Some (SCU_ERROR_INVALID_ARGUMENT, header)
        else if n > 0 then do {
          dst \<leftarrow> scu_list_itemAt header index;
          src \<leftarrow> scu_list_itemAt header stop;
          k \<leftarrow> sub64 (count header) index;
          k1 \<leftarrow> sub64 k n;
          len \<leftarrow> mul64 k1 (itemSize header);
          block \<leftarrow> memmove (items header) dst src len;
          c \<leftarrow> sub64 (count header) n;
          Some (SCU_ERROR_NONE, header\<lparr>count := c, items := block\<rparr>)
        }
        else Some (SCU_ERROR_NONE, header)
      })"

definition scu_list_clearInternal :: "SCUHeader \<Rightarrow> SCUHeader" where
  "scu_list_clearInternal header = header\<lparr>count := 0\<rparr>"

definition scu_list_trimToCountInternal ::
    "SCUHeader \<Rightarrow> alloc \<Rightarrow> (SCUError \<times> SCUHeader) option" where
  "scu_list_trimToCountInternal header mem =
     (if capacity header > count header then do {
        nbytes \<leftarrow> mul64 (count header) (itemSize header);
        (case SCU_REALLOC (items header) nbytes mem of
           None \<Rightarrow> Some (SCU_ERROR_OUT_OF_MEMORY, header)
         | Some block \<Rightarrow>
             Some (SCU_ERROR_NONE, header\<lparr>capacity := count header, items := block\<rparr>))
      }
      else Some (SCU_ERROR_NONE, header))"

declare scu_grow_loop.simps [code]

section \<open>Calls of the public surface\<close>

text \<open>
  One call of a mutating operation of \<^verbatim>\<open>SCU/list.h\<close>, with the allocator's answer
  where the operation may allocate. \<^verbatim>\<open>scu_list_clear\<close> returns nothing in C; here
  it reports \<open>SCU_ERROR_NONE\<close> so that all calls have one result type.
\<close>

datatype SCUCall =
    Add "byte list" alloc
  | AddRange SCUPointer int alloc
  | InsertAt int "byte list" alloc
  | InsertRange int SCUPointer int alloc
  | RemoveAt int
  | RemoveRange int int
  | Clear
  | EnsureCapacity int alloc
  | TrimToCount alloc

fun scu_list_call :: "SCUHeader \<Rightarrow> SCUCall \<Rightarrow> (SCUError \<times> SCUHeader) option" where
  "scu_list_call l (Add item mem) = scu_list_addInternal l item mem"
| "scu_list_call l (AddRange src n mem) = scu_list_addRangeInternal l src n mem"
| "scu_list_call l (InsertAt i item mem) = scu_list_insertAtInternal l i item mem"
| "scu_list_call l (InsertRange i src n mem) = scu_list_insertRangeInternal l i src n mem"
| "scu_list_call l (RemoveAt i) = scu_list_removeAtInternal l i"
| "scu_list_call l (RemoveRange i n) = scu_list_removeRangeInternal l i n"
| "scu_list_call l Clear = Some (SCU_ERROR_NONE, scu_list_clearInternal l)"
| "scu_list_call l (EnsureCapacity n mem) = scu_list_ensureCapacityInternal l n mem"
| "scu_list_call l (TrimToCount mem) = scu_list_trimToCountInternal l mem"

text \<open>A sequence of calls on one list; a call that reports an error leaves a usable list.\<close>

fun scu_list_calls :: "SCUHeader \<Rightarrow> SCUCall list \<Rightarrow> SCUHeader option" where
  "scu_list_calls l [] = Some l"
| "scu_list_calls l (c # cs) =
     (case scu_list_call l c of None \<Rightarrow> None | Some (e, l') \<Rightarrow> scu_list_calls l' cs)"

section \<open>What a caller sees of a list\<close>

text \<open>
  The invariant of a live list: the header fields are consistent and the item region has
  room for exactly \<open>capacity\<close> items (so its size fits \<^verbatim>\<open>int64_t\<close>).
\<close>

definition scu_list_valid :: "SCUHeader \<Rightarrow> bool" where
  "scu_list_valid l \<longleftrightarrow>
     0 \<le> count l \<and> count l \<le> capacity l \<and> 0 < itemSize l \<and>
     capacity l * itemSize l \<le> INT64_MAX \<and>
     int (length (items l)) = capacity l * itemSize l"

text \<open>Reading \<^verbatim>\<open>list[k]\<close>: the \<open>itemSize\<close> bytes at \<^verbatim>\<open>scu_list_itemAt(header, k)\<close>.\<close>

definition scu_item :: "SCUHeader \<Rightarrow> int \<Rightarrow> byte list" where
  "scu_item l k = take (nat (itemSize l)) (drop (nat (k * itemSize l)) (items l))"

text \<open>The bytes of the live items, indices \<open>0\<close> up to \<open>count\<close>, and the items themselves.\<close>

definition scu_live :: "SCUHeader \<Rightarrow> byte list" where
  "scu_live l = take (nat (count l * itemSize l)) (items l)"

definition scu_list_elems :: "SCUHeader \<Rightarrow> byte list list" where
  "scu_list_elems l = map (\<lambda>k. scu_item l (int k)) [0..<nat (count l)]"

definition chunk :: "nat \<Rightarrow> nat \<Rightarrow> 'a list \<Rightarrow> 'a list" where
  "chunk S k xs = take S (drop (k * S) xs)"

section \<open>The growth policy in the specification's words\<close>

text \<open>One expansion step of the growth policy, \<open>new = old*3/2 + 1\<close>.\<close>

definition grow_step :: "int \<Rightarrow> int" where
  "grow_step old = old * 3 div 2 + 1"

text \<open>
  The capacity a list of capacity \<open>c\<close> has after a successful
  \<^verbatim>\<open>scu_list_ensureCapacityInternal\<close> for \<open>need\<close> items, as the source computes it.
\<close>

definition scu_capacity_for :: "int \<Rightarrow> int \<Rightarrow> int option" where
  "scu_capacity_for c need =
     (if c < need then scu_grow_loop (SCU_MAX c SCU_INITIAL_CAPACITY) need else Some c)"

section \<open>Sequences of single-element operations\<close>

text \<open>Adding items one after the other, each with the allocator's answer to that call.\<close>

fun scu_add_each :: "SCUHeader \<Rightarrow> (byte list \<times> alloc) list \<Rightarrow> (SCUError \<times> SCUHeader) option" where
  "scu_add_each l [] = Some (SCU_ERROR_NONE, l)"
| "scu_add_each l (x # xs) =
     (case scu_list_addInternal l (fst x) (snd x) of
        Some (SCU_ERROR_NONE, l') \<Rightarrow> scu_add_each l' xs
      | r \<Rightarrow> r)"

text \<open>
  Inserting the items of \<open>src\<close> one by one: the first at index \<open>i\<close>, the next at
  \<open>i + 1\<close>, and so on, one call of \<^verbatim>\<open>scu_list_insertAt\<close> per allocator answer. The
  item of each call is the object at the current start of \<open>src\<close>.
\<close>

fun scu_insert_each ::
    "SCUHeader \<Rightarrow> int \<Rightarrow> byte list \<Rightarrow> alloc list \<Rightarrow> (SCUError \<times> SCUHeader) option" where
  "scu_insert_each l i src [] = Some (SCU_ERROR_NONE, l)"
| "scu_insert_each l i src (mem # mems) =
     (case scu_list_insertAtInternal l i src mem of
        Some (SCU_ERROR_NONE, l') \<Rightarrow> scu_insert_each l' (i + 1) (drop (nat (itemSize l)) src) mems
      | r \<Rightarrow> r)"

text \<open>Removing \<open>n\<close> items one by one, each at index \<open>i\<close>.\<close>

fun scu_remove_each :: "SCUHeader \<Rightarrow> int \<Rightarrow> nat \<Rightarrow> (SCUError \<times> SCUHeader) option" where
  "scu_remove_each l i 0 = Some (SCU_ERROR_NONE, l)"
| "scu_remove_each l i (Suc n) =
     (case scu_list_removeAtInternal l i of
        Some (SCU_ERROR_NONE, l') \<Rightarrow> scu_remove_each l' i n
      | r \<Rightarrow> r)"

section \<open>The pseudorandom generator\<close>

























section \<open>Lists of bytes: splicing and chunks\<close>

lemma take_take_drop: "n + k \<le> m \<Longrightarrow> take k (drop n (take m xs)) = take k (drop n xs)"
  by (simp add: drop_take min_def)

lemma splice_insert_live:
  fixes B X :: "'a list" and a m e :: nat
  assumes "a \<le> e" "e + m \<le> length B" "m \<le> length X"
  defines "moved \<equiv> take (a + m) B @ take (e - a) (drop a B) @ drop (a + m + (e - a)) B"
  defines "blk \<equiv> take a moved @ take m X @ drop (a + m) moved"
  shows "take (e + m) blk = take a (take e B) @ take m X @ drop a (take e B)"
    and "length blk = length B"
proof -
  have am: "a + m + (e - a) = e + m" using assms(1) by simp
  have l1: "length (take (a + m) B) = a + m" using assms(1,2) by simp
  have lm: "length moved = length B" using assms(1-3) by (simp add: moved_def)
  have t: "take a moved = take a B" using assms(1-3) by (simp add: moved_def)
  have d: "drop (a + m) moved = take (e - a) (drop a B) @ drop (e + m) B"
    unfolding moved_def am using l1 by simp
  have la: "length (take a B) = a" using assms(1,2) by simp
  have lx: "length (take m X) = m" using assms(3) by simp
  have le: "length (take (e - a) (drop a B)) = e - a" using assms(1,2) by simp
  show "length blk = length B" using assms(1-3) lm by (simp add: blk_def)
  have "take (e + m) blk = take a B @ take m X @ take (e - a) (drop a B)"
    unfolding blk_def t d using la lx le assms(1) by simp
  also have "\<dots> = take a (take e B) @ take m X @ drop a (take e B)"
    using assms(1) by (simp add: drop_take min_def)
  finally show "take (e + m) blk = take a (take e B) @ take m X @ drop a (take e B)" .
qed

lemma splice_remove_live:
  fixes B :: "'a list" and a m e :: nat
  assumes "a + m \<le> e" "e \<le> length B"
  defines "blk \<equiv> take a B @ take (e - a - m) (drop (a + m) B) @ drop (a + (e - a - m)) B"
  shows "take (e - m) blk = take a (take e B) @ drop (a + m) (take e B)"
    and "length blk = length B"
proof -
  have la: "length (take a B) = a" using assms(1,2) by simp
  have le: "length (take (e - a - m) (drop (a + m) B)) = e - a - m" using assms(1,2) by simp
  have em: "e - m = a + (e - a - m)" using assms(1) by simp
  show "length blk = length B" using assms(1-2) by (simp add: blk_def)
  have "take (e - m) blk = take a B @ take (e - a - m) (drop (a + m) B)"
    unfolding blk_def em using la le by simp
  also have "\<dots> = take a (take e B) @ drop (a + m) (take e B)"
  proof -
    have "e - (a + m) = e - a - m" by simp
    then show ?thesis using assms(1) by (simp add: drop_take min_def)
  qed
  finally show "take (e - m) blk = take a (take e B) @ drop (a + m) (take e B)" .
qed

lemma splice_append_live:
  fixes B X :: "'a list" and m e :: nat
  assumes "e + m \<le> length B" "m \<le> length X"
  defines "blk \<equiv> take e B @ take m X @ drop (e + m) B"
  shows "take (e + m) blk = take e B @ take m X"
    and "length blk = length B"
  using assms by (simp_all add: blk_def)

lemma chunk_insert_before:
  assumes "j < i" "i * S \<le> length L"
  shows "chunk S j (take (i * S) L @ R) = chunk S j L"
proof -
  have le: "j * S + S \<le> i * S" using assms(1)
    by (metis Suc_leI mult_Suc mult_le_mono1 add.commute)
  have len: "length (take (i * S) L) = i * S" using assms(2) by simp
  have "S \<le> length (drop (j * S) (take (i * S) L))" using le len by simp
  then have "chunk S j (take (i * S) L @ R) = take S (drop (j * S) (take (i * S) L))"
    using le len by (simp add: chunk_def)
  also have "\<dots> = take S (drop (j * S) L)" using le by (rule take_take_drop)
  finally show ?thesis by (simp add: chunk_def)
qed

lemma chunk_insert_at:
  "i * S \<le> length L \<Longrightarrow> length X = S \<Longrightarrow> chunk S i (take (i * S) L @ X @ R) = X"
  by (simp add: chunk_def)

lemma chunk_insert_after:
  assumes "i \<le> j" "i * S \<le> length L" "length X = n * S"
  shows "chunk S (j + n) (take (i * S) L @ X @ drop (i * S) L) = chunk S j L"
proof -
  have "i * S \<le> j * S" using assms(1) by simp
  then obtain d where d: "j * S = i * S + d" using le_Suc_ex by blast
  have e: "(j + n) * S = length (take (i * S) L @ X) + d"
    using d assms(2,3) by (simp add: add_mult_distrib)
  have "drop ((j + n) * S) (take (i * S) L @ X @ drop (i * S) L) = drop d (drop (i * S) L)"
    unfolding e by (metis append.assoc drop_append drop_drop append_eq_conv_conj add.commute)
  also have "\<dots> = drop (j * S) L" unfolding d by (simp add: add.commute)
  finally show ?thesis by (simp add: chunk_def)
qed

lemma chunk_remove_after:
  assumes "i \<le> j" "(i + n) * S \<le> length L"
  shows "chunk S j (take (i * S) L @ drop ((i + n) * S) L) = chunk S (j + n) L"
proof -
  have "i * S \<le> j * S" using assms(1) by simp
  then obtain d where d: "j * S = i * S + d" using le_Suc_ex by blast
  have e: "(j + n) * S = d + (i + n) * S" using d by (simp add: add_mult_distrib)
  have l: "length (take (i * S) L) = i * S" using assms(2) by (simp add: add_mult_distrib)
  have "drop (j * S) (take (i * S) L @ drop ((i + n) * S) L) = drop d (drop ((i + n) * S) L)"
    unfolding d using l by simp
  also have "\<dots> = drop ((j + n) * S) L" unfolding e by simp
  finally show ?thesis by (simp add: chunk_def)
qed

section \<open>Checked arithmetic and the growth loop\<close>

lemma add64_eq_Some [simp]: "add64 a b = Some c \<longleftrightarrow> in_int64 (a + b) \<and> c = a + b"
  by (auto simp: add64_def)

lemma sub64_eq_Some [simp]: "sub64 a b = Some c \<longleftrightarrow> in_int64 (a - b) \<and> c = a - b"
  by (auto simp: sub64_def)

lemma mul64_eq_Some [simp]: "mul64 a b = Some c \<longleftrightarrow> in_int64 (a * b) \<and> c = a * b"
  by (auto simp: mul64_def)

lemma trunc_div_nonneg: "0 \<le> a \<Longrightarrow> 0 < b \<Longrightarrow> trunc_div a b = a div b"
  by (simp add: trunc_div_def)

lemma div64_eq_Some [simp]:
  "div64 a b = Some c \<longleftrightarrow> b \<noteq> 0 \<and> in_int64 (trunc_div a b) \<and> c = trunc_div a b"
  by (auto simp: div64_def)

lemma in_int64_between: "0 \<le> x \<Longrightarrow> x \<le> y \<Longrightarrow> y \<le> INT64_MAX \<Longrightarrow> in_int64 x"
  by (simp add: in_int64_def INT64_MIN_def)

lemma scu_grow_loop_done: "\<not> x < cap \<Longrightarrow> scu_grow_loop x cap = Some x"
  by (subst scu_grow_loop.simps) simp

lemma scu_grow_loop_step:
  assumes "x < cap" "0 \<le> x" "x * 3 \<le> INT64_MAX"
  shows "scu_grow_loop x cap = scu_grow_loop (grow_step x) cap"
proof -
  have m: "mul64 x 3 = Some (x * 3)" using assms(2,3) by (simp add: mul64_def in_int64_def INT64_MIN_def)
  have t: "trunc_div (x * 3) 2 = x * 3 div 2" using assms(2) by (simp add: trunc_div_nonneg)
  have b: "0 \<le> x * 3 div 2" "x * 3 div 2 + 1 \<le> INT64_MAX"
    using assms(2,3) unfolding INT64_MAX_def by presburger+
  have d: "div64 (x * 3) 2 = Some (x * 3 div 2)"
    using b by (simp add: div64_def t in_int64_def INT64_MIN_def)
  have a: "add64 (x * 3 div 2) 1 = Some (grow_step x)"
    using b by (simp add: add64_def grow_step_def in_int64_def INT64_MIN_def)
  show ?thesis by (subst scu_grow_loop.simps) (simp add: assms(1) m d a)
qed

lemma scu_grow_loop_unfold:
  assumes "scu_grow_loop x cap = Some y" "x < cap" "0 < x"
  shows "x * 3 \<le> INT64_MAX \<and> scu_grow_loop (grow_step x) cap = Some y"
proof -
  from assms(1) have "mul64 x 3 \<bind> (\<lambda>t. div64 t 2 \<bind> (\<lambda>d. add64 d 1 \<bind> (\<lambda>n. scu_grow_loop n cap))) = Some y"
    by (subst (asm) scu_grow_loop.simps) (simp add: assms(2))
  then have r: "in_int64 (x * 3)" by (auto simp: bind_eq_Some_conv)
  then have "x * 3 \<le> INT64_MAX" by (simp add: in_int64_def)
  then show ?thesis using scu_grow_loop_step[of x cap] assms by simp
qed

lemma grow_step_pos: "0 < x \<Longrightarrow> x < grow_step x"
  by (simp add: grow_step_def)

lemma scu_grow_loop_chain:
  assumes "scu_grow_loop x cap = Some y"
  shows "0 < x \<longrightarrow> x \<le> y \<and> cap \<le> y \<and>
         (\<exists>k. y = (grow_step ^^ k) x \<and> (\<forall>j<k. (grow_step ^^ j) x < cap))"
proof (rule scu_grow_loop.raw_induct[OF _ assms], goal_cases)
  case (1 loop x cap y)
  show ?case
  proof (cases "x < cap")
    case False
    with 1(2) have "y = x" by simp
    moreover have "x = (grow_step ^^ 0) x \<and> (\<forall>j<0::nat. (grow_step ^^ j) x < cap)" by simp
    ultimately show ?thesis using False by (metis linorder_not_less order_refl)
  next
    case True
    show ?thesis
    proof
      assume pos: "0 < x"
      from 1(2) True have b: "mul64 x 3 \<bind> (\<lambda>t. div64 t 2 \<bind> (\<lambda>d. add64 d 1 \<bind> (\<lambda>n. loop n cap))) = Some y"
        by simp
      then have r: "in_int64 (x * 3)" by (auto simp: bind_eq_Some_conv)
      have t: "trunc_div (x * 3) 2 = x * 3 div 2" using pos by (simp add: trunc_div_nonneg)
      from b r have "loop (grow_step x) cap = Some y"
        by (auto simp: bind_eq_Some_conv t grow_step_def)
      from 1(1)[OF this] grow_step_pos[OF pos] pos
      obtain k where k: "grow_step x \<le> y" "cap \<le> y" "y = (grow_step ^^ k) (grow_step x)"
          "\<forall>j<k. (grow_step ^^ j) (grow_step x) < cap"
        by auto
      have y: "y = (grow_step ^^ Suc k) x" using k(3) by (simp add: funpow_swap1)
      have "\<forall>j<Suc k. (grow_step ^^ j) x < cap"
      proof (intro allI impI)
        fix j assume "j < Suc k"
        then show "(grow_step ^^ j) x < cap"
          using True k(4) by (cases j) (simp_all add: funpow_swap1)
      qed
      with y k(1,2) grow_step_pos[OF pos] show "x \<le> y \<and> cap \<le> y \<and>
         (\<exists>k. y = (grow_step ^^ k) x \<and> (\<forall>j<k. (grow_step ^^ j) x < cap))"
        by (metis less_le_not_le linorder_le_cases order_trans)
    qed
  qed
qed

lemma SCU_REALLOC_None [simp]: "SCU_REALLOC old n None = None"
  by (simp add: SCU_REALLOC_def)

lemma SCU_REALLOC_length: "SCU_REALLOC old n mem = Some blk \<Longrightarrow> length blk = nat n"
  by (auto simp: SCU_REALLOC_def split: option.splits)

lemma SCU_REALLOC_take:
  assumes "SCU_REALLOC old n mem = Some blk" "m \<le> nat n" "m \<le> length old"
  shows "take m blk = take m old"
proof (rule nth_equalityI)
  show "length (take m blk) = length (take m old)"
    using assms SCU_REALLOC_length[OF assms(1)] by simp
next
  fix i assume "i < length (take m blk)"
  then have i: "i < m" by simp
  from assms(1) obtain g where
    blk: "blk = map (\<lambda>k. if k < length old then old ! k else g k) [0..<nat n]"
    by (auto simp: SCU_REALLOC_def split: option.splits)
  show "take m blk ! i = take m old ! i" using i assms(2,3) by (simp add: blk)
qed

lemma ensure_error:
  assumes "scu_list_ensureCapacityInternal l cap mem = Some (e, l')" "e \<noteq> SCU_ERROR_NONE"
  shows "l' = l \<and> (e = SCU_ERROR_INVALID_ARGUMENT \<and> cap < 0 \<or> e = SCU_ERROR_OUT_OF_MEMORY \<and> 0 \<le> cap)"
  using assms
  by (auto simp: scu_list_ensureCapacityInternal_def bind_eq_Some_conv split: if_splits option.splits)

lemma ensure_ok:
  assumes v: "scu_list_valid l"
    and e: "scu_list_ensureCapacityInternal l cap mem = Some (SCU_ERROR_NONE, l')"
  shows "scu_list_valid l' \<and> count l' = count l \<and> itemSize l' = itemSize l \<and>
         cap \<le> capacity l' \<and> capacity l \<le> capacity l' \<and> scu_live l' = scu_live l"
proof (cases "capacity l < cap")
  case False
  with e have "l' = l" "0 \<le> cap"
    by (auto simp: scu_list_ensureCapacityInternal_def split: if_splits)
  with False v show ?thesis by simp
next
  case True
  let ?start = "SCU_MAX (capacity l) SCU_INITIAL_CAPACITY"
  from e True obtain nc blk where
      g: "scu_grow_loop ?start cap = Some nc"
    and r: "in_int64 (nc * itemSize l)"
    and b: "SCU_REALLOC (items l) (nc * itemSize l) mem = Some blk"
    and l': "l' = l\<lparr>capacity := nc, items := blk\<rparr>"
    by (auto simp: scu_list_ensureCapacityInternal_def bind_eq_Some_conv split: if_splits option.splits)
  have s: "0 < ?start" "capacity l \<le> ?start"
    by (simp_all add: SCU_MAX_def SCU_INITIAL_CAPACITY_def)
  from scu_grow_loop_chain[OF g] s have nc: "capacity l \<le> nc" "cap \<le> nc" by auto
  have sz: "0 < itemSize l" and c: "0 \<le> count l" "count l \<le> capacity l"
    and len: "int (length (items l)) = capacity l * itemSize l"
    using v by (simp_all add: scu_list_valid_def)
  have m1: "capacity l * itemSize l \<le> nc * itemSize l" using nc(1) sz by (simp add: mult_right_mono)
  have m2: "count l * itemSize l \<le> capacity l * itemSize l" using c(2) sz by (simp add: mult_right_mono)
  have lb: "length blk = nat (nc * itemSize l)" by (rule SCU_REALLOC_length[OF b])
  have "take (nat (count l * itemSize l)) blk = take (nat (count l * itemSize l)) (items l)"
    using m1 m2 len by (intro SCU_REALLOC_take[OF b]) auto
  then have live: "scu_live l' = scu_live l" by (simp add: scu_live_def l')
  have "scu_list_valid l'"
    using r lb c sz nc m1 len
    by (auto simp: scu_list_valid_def l' in_int64_def)
  then show ?thesis using live nc by (simp add: l')
qed

section \<open>Validity, memory moves and the live bytes\<close>

lemma valid_count_in_int64:
  assumes "scu_list_valid l" "0 \<le> k" "k \<le> capacity l"
  shows "in_int64 k" "in_int64 (k * itemSize l)" "k * itemSize l \<le> capacity l * itemSize l" "0 \<le> k * itemSize l"
proof -
  have sz: "1 \<le> itemSize l" and cap: "capacity l * itemSize l \<le> INT64_MAX"
    using assms(1) by (simp_all add: scu_list_valid_def)
  show m: "k * itemSize l \<le> capacity l * itemSize l" using assms(3) sz by (simp add: mult_right_mono)
  show n: "0 \<le> k * itemSize l" using assms(2) sz by simp
  have "k * 1 \<le> k * itemSize l" using assms(2) sz by (intro mult_left_mono) auto
  then have "k \<le> INT64_MAX" using m cap by simp
  then show "in_int64 k" using assms(2) by (simp add: in_int64_def INT64_MIN_def)
  show "in_int64 (k * itemSize l)" using m n cap by (simp add: in_int64_def INT64_MIN_def)
qed

lemma memmove_Some:
  assumes "memmove B dst src n = Some blk"
  shows "0 \<le> dst \<and> 0 \<le> src \<and> 0 \<le> n \<and> dst + n \<le> int (length B) \<and> src + n \<le> int (length B) \<and>
         blk = take (nat dst) B @ take (nat n) (drop (nat src) B) @ drop (nat dst + nat n) B"
  using assms by (auto simp: memmove_def nat_add_distrib split: if_splits)

lemma memcpy_Some:
  assumes "memcpy B dst src n = Some blk"
  shows "\<exists>x. src = Some x \<and> 0 \<le> dst \<and> 0 \<le> n \<and> dst + n \<le> int (length B) \<and> n \<le> int (length x) \<and>
         blk = take (nat dst) B @ take (nat n) x @ drop (nat dst + nat n) B"
  using assms by (auto simp: memcpy_def nat_add_distrib split: if_splits option.splits)

lemma memmove_defined:
  assumes "0 \<le> dst" "0 \<le> src" "0 \<le> n" "dst + n \<le> int (length B)" "src + n \<le> int (length B)"
  shows "memmove B dst src n = Some (take (nat dst) B @ take (nat n) (drop (nat src) B) @ drop (nat dst + nat n) B)"
  using assms by (simp add: memmove_def nat_add_distrib)

lemma live_eq_imp_item_eq:
  assumes "scu_live l1 = scu_live l2" "count l1 = count l2" "itemSize l1 = itemSize l2"
    "0 < itemSize l1" "0 \<le> k" "k < count l1"
  shows "scu_item l1 k = scu_item l2 k"
proof -
  let ?s = "itemSize l1"
  have "(k + 1) * ?s \<le> count l1 * ?s" using assms(4,6) by (intro mult_right_mono) auto
  then have "nat (k * ?s) + nat ?s \<le> nat (count l1 * ?s)"
    using assms(4,5) by (simp add: distrib_right nat_add_distrib[symmetric])
  then have "\<And>B. take (nat ?s) (drop (nat (k * ?s)) (take (nat (count l1 * ?s)) B)) =
                  take (nat ?s) (drop (nat (k * ?s)) B)"
    by (rule take_take_drop)
  then show ?thesis using assms(1,2,3) unfolding scu_item_def scu_live_def by metis
qed

lemma item_of_live:
  assumes "0 < itemSize l" "0 \<le> k" "k < count l"
  shows "scu_item l k = chunk (nat (itemSize l)) (nat k) (scu_live l)"
proof -
  let ?s = "itemSize l"
  have "(k + 1) * ?s \<le> count l * ?s" using assms(1,3) by (intro mult_right_mono) auto
  then have "nat (k * ?s) + nat ?s \<le> nat (count l * ?s)"
    using assms(1,2) by (simp add: distrib_right nat_add_distrib[symmetric])
  then have "take (nat ?s) (drop (nat (k * ?s)) (take (nat (count l * ?s)) (items l))) =
             take (nat ?s) (drop (nat (k * ?s)) (items l))"
    by (rule take_take_drop)
  moreover have "nat (k * ?s) = nat k * nat ?s" using assms(2) by (simp add: nat_mult_distrib)
  ultimately show ?thesis by (simp add: scu_item_def scu_live_def chunk_def)
qed

lemma length_live:
  assumes "scu_list_valid l"
  shows "length (scu_live l) = nat (count l) * nat (itemSize l)"
proof -
  have c: "0 \<le> count l" "count l \<le> capacity l" using assms by (simp_all add: scu_list_valid_def)
  have "count l * itemSize l \<le> capacity l * itemSize l"
    by (rule valid_count_in_int64(3)[OF assms c])
  then have "nat (count l * itemSize l) \<le> length (items l)"
    using assms by (simp add: scu_list_valid_def nat_le_iff)
  then show ?thesis using c(1) by (simp add: scu_live_def nat_mult_distrib)
qed

section \<open>The effect of each operation on a valid list\<close>

lemma insertRange_ok:
  assumes v: "scu_list_valid l" and pos: "0 < n"
    and r: "scu_list_insertRangeInternal l i src n mem = Some (SCU_ERROR_NONE, l')"
  shows "\<exists>x. (\<forall>y. src = Object y \<longrightarrow> x = y) \<and>
           n * itemSize l \<le> int (length x) \<and> 0 \<le> i \<and> i \<le> count l \<and>
           scu_list_valid l' \<and> count l' = count l + n \<and> itemSize l' = itemSize l \<and>
           scu_live l' = take (nat (i * itemSize l)) (scu_live l) @ take (nat (n * itemSize l)) x @
                         drop (nat (i * itemSize l)) (scu_live l) \<and>
           (\<exists>l1. scu_list_ensureCapacityInternal l (count l + n) mem = Some (SCU_ERROR_NONE, l1) \<and>
                 capacity l' = capacity l1)"
proof -
  from r pos have i: "0 \<le> i" "i \<le> count l"
    by (auto simp: scu_list_insertRangeInternal_def split: if_splits)
  from r pos i obtain l1 moved blk where
      e: "scu_list_ensureCapacityInternal l (count l + n) mem = Some (SCU_ERROR_NONE, l1)"
    and mm: "memmove (items l1) ((i + n) * itemSize l1) (i * itemSize l1) ((count l1 - i) * itemSize l1) = Some moved"
    and mc: "memcpy moved (i * itemSize l1)
               (scu_pointee src (capacity l1 \<noteq> capacity l) moved (i * itemSize l1) (n * itemSize l1))
               (n * itemSize l1) = Some blk"
    and l': "l' = l1\<lparr>count := count l1 + n, items := blk\<rparr>"
    by (auto simp: scu_list_insertRangeInternal_def scu_list_itemAt_def bind_eq_Some_conv split: if_splits)
  from ensure_ok[OF v e] have v1: "scu_list_valid l1" and c1: "count l1 = count l"
    and s1: "itemSize l1 = itemSize l" and cap1: "count l + n \<le> capacity l1"
    and live1: "scu_live l1 = scu_live l" by simp_all
  let ?s = "itemSize l" let ?B = "items l1"
  let ?a = "nat (i * ?s)" let ?m = "nat (n * ?s)" let ?e = "nat (count l * ?s)"
  have sz: "0 < ?s" using v by (simp add: scu_list_valid_def)
  have c0: "0 \<le> count l" using v by (simp add: scu_list_valid_def)
  have lenB: "int (length ?B) = capacity l1 * ?s" using v1 s1 by (simp add: scu_list_valid_def)
  have nn: "0 \<le> i * ?s" "0 \<le> n * ?s" "0 \<le> count l * ?s" "0 \<le> (count l - i) * ?s"
    using sz i pos c0 by simp_all
  have ae: "?a \<le> ?e" using i sz by (simp add: mult_right_mono nat_le_iff)
  have "(count l + n) * ?s \<le> capacity l1 * ?s" using cap1 sz by (simp add: mult_right_mono)
  then have em: "?e + ?m \<le> length ?B"
    using lenB nn by (simp add: distrib_right nat_add_distrib[symmetric] nat_le_iff)
  from memmove_Some[OF mm] have
    moved: "moved = take (nat ((i + n) * ?s)) ?B @ take (nat ((count l - i) * ?s)) (drop ?a ?B) @
                   drop (nat ((i + n) * ?s) + nat ((count l - i) * ?s)) ?B"
    by (simp add: s1 c1)
  have n1: "nat ((i + n) * ?s) = ?a + ?m" using nn by (simp add: distrib_right nat_add_distrib)
  have n2: "nat ((count l - i) * ?s) = ?e - ?a" using nn by (simp add: left_diff_distrib nat_diff_distrib)
  from memcpy_Some[OF mc] obtain x where
      px: "scu_pointee src (capacity l1 \<noteq> capacity l) moved (i * ?s) (n * ?s) = Some x"
    and xl: "n * ?s \<le> int (length x)"
    and blk: "blk = take ?a moved @ take ?m x @ drop (?a + ?m) moved"
    by (auto simp: s1)
  have x: "\<forall>y. src = Object y \<longrightarrow> x = y" "n * ?s \<le> int (length x)"
    using px xl by (auto simp: scu_pointee_def)
  have mx: "?m \<le> length x" using x(2) by simp
  have moved': "moved = take (?a + ?m) ?B @ take (?e - ?a) (drop ?a ?B) @ drop (?a + ?m + (?e - ?a)) ?B"
    using moved by (simp only: n1 n2)
  have t: "take (?e + ?m) blk = take ?a (take ?e ?B) @ take ?m x @ drop ?a (take ?e ?B)"
    unfolding blk moved' by (rule splice_insert_live(1)[OF ae em mx])
  have lb: "length blk = length ?B"
    unfolding blk moved' by (rule splice_insert_live(2)[OF ae em mx])
  have n3: "nat ((count l + n) * ?s) = ?e + ?m" using nn by (simp add: distrib_right nat_add_distrib)
  have liveB: "take ?e ?B = scu_live l" using live1 by (simp add: scu_live_def c1 s1)
  have live: "scu_live l' = take ?a (scu_live l) @ take ?m x @ drop ?a (scu_live l)"
    using t by (simp add: scu_live_def l' c1 s1 n3 liveB)
  have "scu_list_valid l'"
    using v1 lb cap1 c0 pos by (simp add: scu_list_valid_def l' c1)
  with x live i e show ?thesis by (intro exI[of _ x]) (simp add: l' c1 s1)
qed

lemma insertAt_ok:
  assumes v: "scu_list_valid l"
    and r: "scu_list_insertAtInternal l i item mem = Some (SCU_ERROR_NONE, l')"
  shows "itemSize l \<le> int (length item) \<and> 0 \<le> i \<and> i \<le> count l \<and>
           scu_list_valid l' \<and> count l' = count l + 1 \<and> itemSize l' = itemSize l \<and>
           scu_live l' = take (nat (i * itemSize l)) (scu_live l) @ take (nat (itemSize l)) item @
                         drop (nat (i * itemSize l)) (scu_live l) \<and>
           (\<exists>l1. scu_list_ensureCapacityInternal l (count l + 1) mem = Some (SCU_ERROR_NONE, l1) \<and>
                 capacity l' = capacity l1)"
proof -
  from r have i: "0 \<le> i" "i \<le> count l"
    by (auto simp: scu_list_insertAtInternal_def split: if_splits)
  from r i obtain l1 moved blk where
      e: "scu_list_ensureCapacityInternal l (count l + 1) mem = Some (SCU_ERROR_NONE, l1)"
    and mm: "memmove (items l1) ((i + 1) * itemSize l1) (i * itemSize l1) ((count l1 - i) * itemSize l1) = Some moved"
    and mc: "memcpy moved (i * itemSize l1) (Some item) (itemSize l1) = Some blk"
    and l': "l' = l1\<lparr>count := count l1 + 1, items := blk\<rparr>"
    by (auto simp: scu_list_insertAtInternal_def scu_list_itemAt_def bind_eq_Some_conv split: if_splits)
  from ensure_ok[OF v e] have v1: "scu_list_valid l1" and c1: "count l1 = count l"
    and s1: "itemSize l1 = itemSize l" and cap1: "count l + 1 \<le> capacity l1"
    and live1: "scu_live l1 = scu_live l" by simp_all
  let ?s = "itemSize l" let ?B = "items l1"
  let ?a = "nat (i * ?s)" let ?m = "nat ?s" let ?e = "nat (count l * ?s)"
  have sz: "0 < ?s" using v by (simp add: scu_list_valid_def)
  have c0: "0 \<le> count l" using v by (simp add: scu_list_valid_def)
  have lenB: "int (length ?B) = capacity l1 * ?s" using v1 s1 by (simp add: scu_list_valid_def)
  have nn: "0 \<le> i * ?s" "0 \<le> count l * ?s" "0 \<le> (count l - i) * ?s"
    using sz i c0 by simp_all
  have ae: "?a \<le> ?e" using i sz by (simp add: mult_right_mono nat_le_iff)
  have "(count l + 1) * ?s \<le> capacity l1 * ?s" using cap1 sz by (simp add: mult_right_mono)
  then have em: "?e + ?m \<le> length ?B"
    using lenB nn sz by (simp add: distrib_right nat_add_distrib[symmetric] nat_le_iff)
  from memmove_Some[OF mm] have
    moved: "moved = take (nat ((i + 1) * ?s)) ?B @ take (nat ((count l - i) * ?s)) (drop ?a ?B) @
                   drop (nat ((i + 1) * ?s) + nat ((count l - i) * ?s)) ?B"
    by (simp add: s1 c1)
  have n1: "nat ((i + 1) * ?s) = ?a + ?m" using nn sz by (simp add: distrib_right nat_add_distrib)
  have n2: "nat ((count l - i) * ?s) = ?e - ?a" using nn by (simp add: left_diff_distrib nat_diff_distrib)
  from memcpy_Some[OF mc] have x: "?s \<le> int (length item)"
    and blk: "blk = take ?a moved @ take ?m item @ drop (?a + ?m) moved"
    by (auto simp: s1)
  have mx: "?m \<le> length item" using x by simp
  have moved': "moved = take (?a + ?m) ?B @ take (?e - ?a) (drop ?a ?B) @ drop (?a + ?m + (?e - ?a)) ?B"
    using moved by (simp only: n1 n2)
  have t: "take (?e + ?m) blk = take ?a (take ?e ?B) @ take ?m item @ drop ?a (take ?e ?B)"
    unfolding blk moved' by (rule splice_insert_live(1)[OF ae em mx])
  have lb: "length blk = length ?B"
    unfolding blk moved' by (rule splice_insert_live(2)[OF ae em mx])
  have n3: "nat ((count l + 1) * ?s) = ?e + ?m" using nn sz by (simp add: distrib_right nat_add_distrib)
  have liveB: "take ?e ?B = scu_live l" using live1 by (simp add: scu_live_def c1 s1)
  have live: "scu_live l' = take ?a (scu_live l) @ take ?m item @ drop ?a (scu_live l)"
    using t by (simp add: scu_live_def l' c1 s1 n3 liveB)
  have "scu_list_valid l'"
    using v1 lb cap1 c0 by (simp add: scu_list_valid_def l' c1)
  with x live i e show ?thesis by (simp add: l' c1 s1)
qed

lemma addRange_ok:
  assumes v: "scu_list_valid l" and pos: "0 < n"
    and r: "scu_list_addRangeInternal l src n mem = Some (SCU_ERROR_NONE, l')"
  shows "\<exists>x. (\<forall>y. src = Object y \<longrightarrow> x = y) \<and> n * itemSize l \<le> int (length x) \<and>
           scu_list_valid l' \<and> count l' = count l + n \<and> itemSize l' = itemSize l \<and>
           scu_live l' = scu_live l @ take (nat (n * itemSize l)) x \<and>
           (\<exists>l1. scu_list_ensureCapacityInternal l (count l + n) mem = Some (SCU_ERROR_NONE, l1) \<and>
                 capacity l' = capacity l1)"
proof -
  from r pos obtain l1 blk where
      e: "scu_list_ensureCapacityInternal l (count l + n) mem = Some (SCU_ERROR_NONE, l1)"
    and mc: "memcpy (items l1) (count l1 * itemSize l1)
               (scu_pointee src (capacity l1 \<noteq> capacity l) (items l1) (count l1 * itemSize l1)
                  (n * itemSize l1))
               (n * itemSize l1) = Some blk"
    and l': "l' = l1\<lparr>count := count l1 + n, items := blk\<rparr>"
    by (auto simp: scu_list_addRangeInternal_def scu_list_itemAt_def bind_eq_Some_conv split: if_splits)
  from ensure_ok[OF v e] have v1: "scu_list_valid l1" and c1: "count l1 = count l"
    and s1: "itemSize l1 = itemSize l" and cap1: "count l + n \<le> capacity l1"
    and live1: "scu_live l1 = scu_live l" by simp_all
  let ?s = "itemSize l" let ?B = "items l1"
  let ?m = "nat (n * ?s)" let ?e = "nat (count l * ?s)"
  have sz: "0 < ?s" using v by (simp add: scu_list_valid_def)
  have c0: "0 \<le> count l" using v by (simp add: scu_list_valid_def)
  have lenB: "int (length ?B) = capacity l1 * ?s" using v1 s1 by (simp add: scu_list_valid_def)
  have nn: "0 \<le> n * ?s" "0 \<le> count l * ?s" using sz pos c0 by simp_all
  have "(count l + n) * ?s \<le> capacity l1 * ?s" using cap1 sz by (simp add: mult_right_mono)
  then have em: "?e + ?m \<le> length ?B"
    using lenB nn by (simp add: distrib_right nat_add_distrib[symmetric] nat_le_iff)
  from memcpy_Some[OF mc] obtain x where
      px: "scu_pointee src (capacity l1 \<noteq> capacity l) ?B (count l * ?s) (n * ?s) = Some x"
    and xl: "n * ?s \<le> int (length x)"
    and blk: "blk = take ?e ?B @ take ?m x @ drop (?e + ?m) ?B"
    by (auto simp: s1 c1)
  have x: "\<forall>y. src = Object y \<longrightarrow> x = y" "n * ?s \<le> int (length x)"
    using px xl by (auto simp: scu_pointee_def)
  have mx: "?m \<le> length x" using x(2) by simp
  have t: "take (?e + ?m) blk = take ?e ?B @ take ?m x"
    unfolding blk by (rule splice_append_live(1)[OF em mx])
  have lb: "length blk = length ?B"
    unfolding blk by (rule splice_append_live(2)[OF em mx])
  have n3: "nat ((count l + n) * ?s) = ?e + ?m" using nn by (simp add: distrib_right nat_add_distrib)
  have liveB: "take ?e ?B = scu_live l" using live1 by (simp add: scu_live_def c1 s1)
  have live: "scu_live l' = scu_live l @ take ?m x"
    using t by (simp add: scu_live_def l' c1 s1 n3 liveB)
  have "scu_list_valid l'"
    using v1 lb cap1 c0 pos by (simp add: scu_list_valid_def l' c1)
  with x live e show ?thesis by (intro exI[of _ x]) (simp add: l' c1 s1)
qed

lemma add_ok:
  assumes v: "scu_list_valid l"
    and r: "scu_list_addInternal l item mem = Some (SCU_ERROR_NONE, l')"
  shows "itemSize l \<le> int (length item) \<and>
           scu_list_valid l' \<and> count l' = count l + 1 \<and> itemSize l' = itemSize l \<and>
           scu_live l' = scu_live l @ take (nat (itemSize l)) item \<and>
           (\<exists>l1. scu_list_ensureCapacityInternal l (count l + 1) mem = Some (SCU_ERROR_NONE, l1) \<and>
                 capacity l' = capacity l1)"
proof -
  from r obtain l1 blk where
      e: "scu_list_ensureCapacityInternal l (count l + 1) mem = Some (SCU_ERROR_NONE, l1)"
    and mc: "memcpy (items l1) (count l1 * itemSize l1) (Some item) (itemSize l1) = Some blk"
    and l': "l' = l1\<lparr>count := count l1 + 1, items := blk\<rparr>"
    by (auto simp: scu_list_addInternal_def scu_list_itemAt_def bind_eq_Some_conv split: if_splits)
  from ensure_ok[OF v e] have v1: "scu_list_valid l1" and c1: "count l1 = count l"
    and s1: "itemSize l1 = itemSize l" and cap1: "count l + 1 \<le> capacity l1"
    and live1: "scu_live l1 = scu_live l" by simp_all
  let ?s = "itemSize l" let ?B = "items l1"
  let ?m = "nat ?s" let ?e = "nat (count l * ?s)"
  have sz: "0 < ?s" using v by (simp add: scu_list_valid_def)
  have c0: "0 \<le> count l" using v by (simp add: scu_list_valid_def)
  have lenB: "int (length ?B) = capacity l1 * ?s" using v1 s1 by (simp add: scu_list_valid_def)
  have nn: "0 \<le> count l * ?s" using sz c0 by simp_all
  have "(count l + 1) * ?s \<le> capacity l1 * ?s" using cap1 sz by (simp add: mult_right_mono)
  then have em: "?e + ?m \<le> length ?B"
    using lenB nn sz by (simp add: distrib_right nat_add_distrib[symmetric] nat_le_iff)
  from memcpy_Some[OF mc] have x: "?s \<le> int (length item)"
    and blk: "blk = take ?e ?B @ take ?m item @ drop (?e + ?m) ?B"
    by (auto simp: s1 c1)
  have mx: "?m \<le> length item" using x by simp
  have t: "take (?e + ?m) blk = take ?e ?B @ take ?m item"
    unfolding blk by (rule splice_append_live(1)[OF em mx])
  have lb: "length blk = length ?B"
    unfolding blk by (rule splice_append_live(2)[OF em mx])
  have n3: "nat ((count l + 1) * ?s) = ?e + ?m" using nn sz by (simp add: distrib_right nat_add_distrib)
  have liveB: "take ?e ?B = scu_live l" using live1 by (simp add: scu_live_def c1 s1)
  have live: "scu_live l' = scu_live l @ take ?m item"
    using t by (simp add: scu_live_def l' c1 s1 n3 liveB)
  have "scu_list_valid l'"
    using v1 lb cap1 c0 by (simp add: scu_list_valid_def l' c1)
  with x live e show ?thesis by (simp add: l' c1 s1)
qed

lemma removeRange_defined:
  assumes v: "scu_list_valid l" and i: "0 \<le> i" and pos: "0 < n" and le: "i + n \<le> count l"
  shows "\<exists>l'. scu_list_removeRangeInternal l i n = Some (SCU_ERROR_NONE, l') \<and>
           scu_list_valid l' \<and> count l' = count l - n \<and> itemSize l' = itemSize l \<and>
           capacity l' = capacity l \<and>
           scu_live l' = take (nat (i * itemSize l)) (scu_live l) @
                         drop (nat (i * itemSize l) + nat (n * itemSize l)) (scu_live l)"
proof -
  let ?s = "itemSize l" let ?B = "items l" let ?c = "count l"
  let ?a = "nat (i * ?s)" let ?m = "nat (n * ?s)" let ?e = "nat (?c * ?s)"
  have sz: "0 < ?s" and cc: "?c \<le> capacity l"
    and lenB: "int (length ?B) = capacity l * ?s"
    using v by (simp_all add: scu_list_valid_def)
  note R = valid_count_in_int64[OF v]
  have r1: "in_int64 (i + n)" using R(1)[of "i + n"] i pos le cc by simp
  have r2: "in_int64 (i * ?s)" using R(2)[of i] i pos le cc by simp
  have r3: "in_int64 ((i + n) * ?s)" using R(2)[of "i + n"] i pos le cc by simp
  have r4: "in_int64 (?c - i)" using R(1)[of "?c - i"] i pos le cc by simp
  have r5: "in_int64 (?c - i - n)" using R(1)[of "?c - i - n"] i pos le cc by simp
  have r6: "in_int64 ((?c - i - n) * ?s)" using R(2)[of "?c - i - n"] i pos le cc by simp
  have r7: "in_int64 (?c - n)" using R(1)[of "?c - n"] i pos le cc by simp
  have nn: "0 \<le> i * ?s" "0 \<le> n * ?s" "0 \<le> ?c * ?s" "0 \<le> (?c - i - n) * ?s"
    using sz i pos le by simp_all
  have cs: "?c * ?s \<le> capacity l * ?s" using cc sz by (simp add: mult_right_mono)
  have b1: "i * ?s + (?c - i - n) * ?s \<le> int (length ?B)"
  proof -
    have "i * ?s + (?c - i - n) * ?s = (?c - n) * ?s" by (simp add: algebra_simps)
    also have "\<dots> \<le> ?c * ?s" using pos sz by (intro mult_right_mono) auto
    finally show ?thesis using cs lenB by simp
  qed
  have b2: "(i + n) * ?s + (?c - i - n) * ?s \<le> int (length ?B)"
  proof -
    have "(i + n) * ?s + (?c - i - n) * ?s = ?c * ?s" by (simp add: algebra_simps)
    then show ?thesis using cs lenB by simp
  qed
  have n0: "0 \<le> (i + n) * ?s" using i pos sz by simp
  note mv = memmove_defined[OF nn(1) n0 nn(4) b1 b2]
  let ?blk = "take ?a ?B @ take (nat ((?c - i - n) * ?s)) (drop (nat ((i + n) * ?s)) ?B) @
              drop (?a + nat ((?c - i - n) * ?s)) ?B"
  let ?l' = "l\<lparr>count := ?c - n, items := ?blk\<rparr>"
  have res: "scu_list_removeRangeInternal l i n = Some (SCU_ERROR_NONE, ?l')"
    using i pos le r1 r2 r3 r4 r5 r6 r7 mv
    by (simp add: scu_list_removeRangeInternal_def scu_list_itemAt_def add64_def sub64_def mul64_def)
  have n1: "nat ((i + n) * ?s) = ?a + ?m" using nn by (simp add: distrib_right nat_add_distrib)
  have n2: "nat ((?c - i - n) * ?s) = ?e - ?a - ?m"
    using nn by (simp add: left_diff_distrib nat_diff_distrib)
  have ame: "?a + ?m \<le> ?e"
  proof -
    have "(i + n) * ?s \<le> ?c * ?s" using le sz by (intro mult_right_mono) auto
    then show ?thesis using nn by (simp add: distrib_right nat_add_distrib[symmetric] nat_le_iff)
  qed
  have eB: "?e \<le> length ?B" using cs lenB by (simp add: nat_le_iff)
  have blk': "?blk = take ?a ?B @ take (?e - ?a - ?m) (drop (?a + ?m) ?B) @ drop (?a + (?e - ?a - ?m)) ?B"
    by (simp only: n1 n2)
  have t: "take (?e - ?m) ?blk = take ?a (take ?e ?B) @ drop (?a + ?m) (take ?e ?B)"
    unfolding blk' by (rule splice_remove_live(1)[OF ame eB])
  have lb: "length ?blk = length ?B"
    unfolding blk' by (rule splice_remove_live(2)[OF ame eB])
  have n3: "nat ((?c - n) * ?s) = ?e - ?m" using nn by (simp add: left_diff_distrib nat_diff_distrib)
  have live: "scu_live ?l' = take ?a (scu_live l) @ drop (?a + ?m) (scu_live l)"
    using t by (simp add: scu_live_def n3)
  have "scu_list_valid ?l'"
    using v lb i pos le by (simp add: scu_list_valid_def)
  with res live show ?thesis by simp
qed

lemma removeAt_defined:
  assumes v: "scu_list_valid l" and i: "0 \<le> i" and le: "i < count l"
  shows "\<exists>l'. scu_list_removeAtInternal l i = Some (SCU_ERROR_NONE, l') \<and>
           scu_list_valid l' \<and> count l' = count l - 1 \<and> itemSize l' = itemSize l \<and>
           capacity l' = capacity l \<and>
           scu_live l' = take (nat (i * itemSize l)) (scu_live l) @
                         drop (nat (i * itemSize l) + nat (itemSize l)) (scu_live l)"
proof -
  let ?s = "itemSize l" let ?B = "items l" let ?c = "count l"
  let ?a = "nat (i * ?s)" let ?m = "nat ?s" let ?e = "nat (?c * ?s)"
  have sz: "0 < ?s" and cc: "?c \<le> capacity l"
    and lenB: "int (length ?B) = capacity l * ?s"
    using v by (simp_all add: scu_list_valid_def)
  note R = valid_count_in_int64[OF v]
  have r1: "in_int64 (i + 1)" using R(1)[of "i + 1"] i le cc by simp
  have r2: "in_int64 (i * ?s)" using R(2)[of i] i le cc by simp
  have r3: "in_int64 ((i + 1) * ?s)" using R(2)[of "i + 1"] i le cc by simp
  have r4: "in_int64 (?c - i)" using R(1)[of "?c - i"] i le cc by simp
  have r5: "in_int64 (?c - i - 1)" using R(1)[of "?c - i - 1"] i le cc by simp
  have r6: "in_int64 ((?c - i - 1) * ?s)" using R(2)[of "?c - i - 1"] i le cc by simp
  have r7: "in_int64 (?c - 1)" using R(1)[of "?c - 1"] i le cc by simp
  have nn: "0 \<le> i * ?s" "0 \<le> ?c * ?s" "0 \<le> (?c - i - 1) * ?s"
    using sz i le by simp_all
  have cs: "?c * ?s \<le> capacity l * ?s" using cc sz by (simp add: mult_right_mono)
  have b1: "i * ?s + (?c - i - 1) * ?s \<le> int (length ?B)"
  proof -
    have "i * ?s + (?c - i - 1) * ?s = (?c - 1) * ?s" by (simp add: algebra_simps)
    also have "\<dots> \<le> ?c * ?s" using sz by (intro mult_right_mono) auto
    finally show ?thesis using cs lenB by simp
  qed
  have b2: "(i + 1) * ?s + (?c - i - 1) * ?s \<le> int (length ?B)"
  proof -
    have "(i + 1) * ?s + (?c - i - 1) * ?s = ?c * ?s" by (simp add: algebra_simps)
    then show ?thesis using cs lenB by simp
  qed
  have n0: "0 \<le> (i + 1) * ?s" using i sz by simp
  note mv = memmove_defined[OF nn(1) n0 nn(3) b1 b2]
  let ?blk = "take ?a ?B @ take (nat ((?c - i - 1) * ?s)) (drop (nat ((i + 1) * ?s)) ?B) @
              drop (?a + nat ((?c - i - 1) * ?s)) ?B"
  let ?l' = "l\<lparr>count := ?c - 1, items := ?blk\<rparr>"
  have res: "scu_list_removeAtInternal l i = Some (SCU_ERROR_NONE, ?l')"
    using i le r1 r2 r3 r4 r5 r6 r7 mv
    by (simp add: scu_list_removeAtInternal_def scu_list_itemAt_def add64_def sub64_def mul64_def)
  have n1: "nat ((i + 1) * ?s) = ?a + ?m" using nn sz by (simp add: distrib_right nat_add_distrib)
  have n2: "nat ((?c - i - 1) * ?s) = ?e - ?a - ?m"
    using nn sz by (simp add: left_diff_distrib nat_diff_distrib)
  have ame: "?a + ?m \<le> ?e"
  proof -
    have "(i + 1) * ?s \<le> ?c * ?s" using le sz by (intro mult_right_mono) auto
    then show ?thesis using nn sz by (simp add: distrib_right nat_add_distrib[symmetric] nat_le_iff)
  qed
  have eB: "?e \<le> length ?B" using cs lenB by (simp add: nat_le_iff)
  have blk': "?blk = take ?a ?B @ take (?e - ?a - ?m) (drop (?a + ?m) ?B) @ drop (?a + (?e - ?a - ?m)) ?B"
    by (simp only: n1 n2)
  have t: "take (?e - ?m) ?blk = take ?a (take ?e ?B) @ drop (?a + ?m) (take ?e ?B)"
    unfolding blk' by (rule splice_remove_live(1)[OF ame eB])
  have lb: "length ?blk = length ?B"
    unfolding blk' by (rule splice_remove_live(2)[OF ame eB])
  have n3: "nat ((?c - 1) * ?s) = ?e - ?m" using nn sz by (simp add: left_diff_distrib nat_diff_distrib)
  have live: "scu_live ?l' = take ?a (scu_live l) @ drop (?a + ?m) (scu_live l)"
    using t by (simp add: scu_live_def n3)
  have "scu_list_valid ?l'"
    using v lb i le by (simp add: scu_list_valid_def)
  with res live show ?thesis by simp
qed

section \<open>Items after an insertion or a removal\<close>

lemma chunk_insert_mid:
  assumes "i * S \<le> length L" "(k + 1) * S \<le> length X"
  shows "chunk S (i + k) (take (i * S) L @ X @ R) = chunk S k X"
proof -
  have l: "length (take (i * S) L) = i * S" using assms(1) by simp
  have "drop ((i + k) * S) (take (i * S) L @ X @ R) = drop (k * S) X @ R"
    using l assms(2) by (simp add: add_mult_distrib)
  moreover have "S \<le> length (drop (k * S) X)" using assms(2) by simp
  ultimately show ?thesis by (simp add: chunk_def)
qed

lemma items_after_insertion:
  assumes v: "scu_list_valid l" and v': "scu_list_valid l'"
    and s: "itemSize l' = itemSize l" and c: "count l' = count l + n"
    and i: "0 \<le> i" "i \<le> count l" and n: "0 \<le> n"
    and lx: "length X = nat n * nat (itemSize l)"
    and live: "scu_live l' = take (nat (i * itemSize l)) (scu_live l) @ X @
                            drop (nat (i * itemSize l)) (scu_live l)"
  shows "(0 \<le> j \<and> j < i \<longrightarrow> scu_item l' j = scu_item l j) \<and>
         (i \<le> j \<and> j < count l \<longrightarrow> scu_item l' (j + n) = scu_item l j) \<and>
         (0 \<le> k \<and> k < n \<longrightarrow> scu_item l' (i + k) = chunk (nat (itemSize l)) (nat k) X)"
proof -
  let ?S = "nat (itemSize l)" let ?L = "scu_live l"
  have sz: "0 < itemSize l" using v by (simp add: scu_list_valid_def)
  have a: "nat (i * itemSize l) = nat i * ?S" using i by (simp add: nat_mult_distrib)
  have lenL: "length ?L = nat (count l) * ?S" by (rule length_live[OF v])
  have iL: "nat i * ?S \<le> length ?L" using i lenL by (simp add: nat_le_iff mult_le_mono1 nat_mono)
  have live': "scu_live l' = take (nat i * ?S) ?L @ X @ drop (nat i * ?S) ?L"
    using live by (simp only: a)
  have 1: "scu_item l' j = scu_item l j" if "0 \<le> j" "j < i"
  proof -
    have "scu_item l' j = chunk ?S (nat j) (scu_live l')"
      using that i c n sz by (intro item_of_live[of l' j, unfolded s]) (auto simp: s)
    also have "\<dots> = chunk ?S (nat j) ?L"
      unfolding live' using that iL by (intro chunk_insert_before) auto
    also have "\<dots> = scu_item l j"
      using that i sz by (intro item_of_live[symmetric]) auto
    finally show ?thesis .
  qed
  have 2: "scu_item l' (j + n) = scu_item l j" if "i \<le> j" "j < count l"
  proof -
    have "scu_item l' (j + n) = chunk ?S (nat (j + n)) (scu_live l')"
      using that i c n sz by (intro item_of_live[of l' "j + n", unfolded s]) (auto simp: s)
    also have "nat (j + n) = nat j + nat n" using that i n by (simp add: nat_add_distrib)
    also have "chunk ?S (nat j + nat n) (scu_live l') = chunk ?S (nat j) ?L"
      unfolding live' using that i iL lx by (intro chunk_insert_after) (auto simp: nat_mono)
    also have "\<dots> = scu_item l j"
      using that i sz by (intro item_of_live[symmetric]) auto
    finally show ?thesis .
  qed
  have 3: "scu_item l' (i + k) = chunk ?S (nat k) X" if "0 \<le> k" "k < n"
  proof -
    have "scu_item l' (i + k) = chunk ?S (nat (i + k)) (scu_live l')"
      using that i c n sz by (intro item_of_live[of l' "i + k", unfolded s]) (auto simp: s)
    also have "nat (i + k) = nat i + nat k" using that i by (simp add: nat_add_distrib)
    also have "chunk ?S (nat i + nat k) (scu_live l') = chunk ?S (nat k) X"
    proof -
      have "nat k + 1 \<le> nat n" using that by simp
      then have "(nat k + 1) * ?S \<le> length X" unfolding lx by (rule mult_le_mono1)
      then show ?thesis unfolding live' using iL by (intro chunk_insert_mid) auto
    qed
    finally show ?thesis .
  qed
  from 1 2 3 show ?thesis by blast
qed

lemma items_after_removal:
  assumes v: "scu_list_valid l" and v': "scu_list_valid l'"
    and s: "itemSize l' = itemSize l" and c: "count l' = count l - n"
    and i: "0 \<le> i" and n: "0 \<le> n" and le: "i + n \<le> count l"
    and live: "scu_live l' = take (nat (i * itemSize l)) (scu_live l) @
                            drop (nat (i * itemSize l) + nat (n * itemSize l)) (scu_live l)"
  shows "(0 \<le> j \<and> j < i \<longrightarrow> scu_item l' j = scu_item l j) \<and>
         (i \<le> j \<and> j < count l - n \<longrightarrow> scu_item l' j = scu_item l (j + n))"
proof -
  let ?S = "nat (itemSize l)" let ?L = "scu_live l"
  have sz: "0 < itemSize l" using v by (simp add: scu_list_valid_def)
  have a: "nat (i * itemSize l) = nat i * ?S" using i by (simp add: nat_mult_distrib)
  have m: "nat (n * itemSize l) = nat n * ?S" using n by (simp add: nat_mult_distrib)
  have lenL: "length ?L = nat (count l) * ?S" by (rule length_live[OF v])
  have "nat i + nat n \<le> nat (count l)" using i n le by (simp add: nat_add_distrib[symmetric] nat_mono)
  then have inL: "(nat i + nat n) * ?S \<le> length ?L" unfolding lenL by (rule mult_le_mono1)
  then have iL: "nat i * ?S \<le> length ?L" by (simp add: add_mult_distrib)
  have live': "scu_live l' = take (nat i * ?S) ?L @ drop ((nat i + nat n) * ?S) ?L"
    using live by (simp only: a m add_mult_distrib)
  have 1: "scu_item l' j = scu_item l j" if "0 \<le> j" "j < i"
  proof -
    have "scu_item l' j = chunk ?S (nat j) (scu_live l')"
      using that i c n le sz by (intro item_of_live[of l' j, unfolded s]) (auto simp: s)
    also have "\<dots> = chunk ?S (nat j) ?L"
      unfolding live' using that iL by (intro chunk_insert_before) auto
    also have "\<dots> = scu_item l j"
      using that i n le sz by (intro item_of_live[symmetric]) auto
    finally show ?thesis .
  qed
  have 2: "scu_item l' j = scu_item l (j + n)" if "i \<le> j" "j < count l - n"
  proof -
    have "scu_item l' j = chunk ?S (nat j) (scu_live l')"
      using that i c n sz by (intro item_of_live[of l' j, unfolded s]) (auto simp: s)
    also have "\<dots> = chunk ?S (nat j + nat n) ?L"
      unfolding live' using that i inL by (intro chunk_remove_after) (auto simp: nat_mono)
    also have "nat j + nat n = nat (j + n)" using that i n by (simp add: nat_add_distrib)
    also have "chunk ?S (nat (j + n)) ?L = scu_item l (j + n)"
      using that i n sz by (intro item_of_live[symmetric]) auto
    finally show ?thesis .
  qed
  from 1 2 show ?thesis by blast
qed

lemma upt_4: "[0..<4] = [0, 1, 2, 3::nat]"
  by (simp add: upt_rec)

lemma upt_3: "[0..<3] = [0, 1, 2::nat]"
  by (simp add: upt_rec)

lemma chunk_0_take: "chunk S 0 (take S x) = take S x"
  by (simp add: chunk_def)

section \<open>Failure of the allocator\<close>

text \<open>
  Claim C2. Whenever a call of the public surface, on any list state, returns
  \<open>SCU_ERROR_OUT_OF_MEMORY\<close>, the list after the call is the list before it: the same
  capacity, count, item size and bytes. The calls that can report it are \<open>add\<close>,
  \<open>addRange\<close>, \<open>insertAt\<close>, \<open>insertRange\<close>, \<open>ensureCapacity\<close> and
  \<open>trimToCount\<close>; each asks the allocator before it moves or copies a byte or changes
  the count.
\<close>

theorem out_of_memory_leaves_list_unchanged:
  assumes "scu_list_call l c = Some (SCU_ERROR_OUT_OF_MEMORY, l')"
  shows "l' = l"
proof (cases c)
  case (Add item mem)
  with assms show ?thesis
    by (auto simp: scu_list_addInternal_def bind_eq_Some_conv split: if_splits dest: ensure_error)
next
  case (AddRange src n mem)
  with assms show ?thesis
    by (auto simp: scu_list_addRangeInternal_def bind_eq_Some_conv split: if_splits dest: ensure_error)
next
  case (InsertAt i item mem)
  with assms show ?thesis
    by (auto simp: scu_list_insertAtInternal_def bind_eq_Some_conv split: if_splits dest: ensure_error)
next
  case (InsertRange i src n mem)
  with assms show ?thesis
    by (auto simp: scu_list_insertRangeInternal_def bind_eq_Some_conv split: if_splits dest: ensure_error)
next
  case (RemoveAt i)
  with assms show ?thesis
    by (auto simp: scu_list_removeAtInternal_def bind_eq_Some_conv split: if_splits)
next
  case (RemoveRange i n)
  with assms show ?thesis
    by (auto simp: scu_list_removeRangeInternal_def bind_eq_Some_conv split: if_splits)
next
  case Clear
  with assms show ?thesis by simp
next
  case (EnsureCapacity n mem)
  with assms show ?thesis by (auto dest: ensure_error)
next
  case (TrimToCount mem)
  with assms show ?thesis
    by (auto simp: scu_list_trimToCountInternal_def bind_eq_Some_conv split: if_splits option.splits)
qed

theorem out_of_memory_leaves_list_unchanged_witness:
  "scu_list_call \<lparr>capacity = 3, count = 3, itemSize = 1, items = [1, 2, 3]\<rparr> (Add [4] None) =
     Some (SCU_ERROR_OUT_OF_MEMORY, \<lparr>capacity = 3, count = 3, itemSize = 1, items = [1, 2, 3]\<rparr>) \<and>
   scu_list_call \<lparr>capacity = 3, count = 3, itemSize = 1, items = [1, 2, 3]\<rparr> (InsertAt 1 [99] None) =
     Some (SCU_ERROR_OUT_OF_MEMORY, \<lparr>capacity = 3, count = 3, itemSize = 1, items = [1, 2, 3]\<rparr>)"
proof -
  let ?l = "\<lparr>capacity = 3, count = 3, itemSize = 1, items = [1, 2, 3 :: byte]\<rparr>"
  have a: "scu_list_call ?l (Add [4] None) = Some (SCU_ERROR_OUT_OF_MEMORY, ?l)"
    by code_simp
  have b: "scu_list_call ?l (InsertAt 1 [99] None) = Some (SCU_ERROR_OUT_OF_MEMORY, ?l)"
    by code_simp
  from out_of_memory_leaves_list_unchanged[OF a] out_of_memory_leaves_list_unchanged[OF b] a b
  show ?thesis by simp
qed

section \<open>Trimming\<close>

text \<open>
  Claim C8. A successful \<open>trimToCount\<close> on a live list leaves \<open>capacity() = count()\<close>
  (the count itself unchanged), and a second \<open>trimToCount\<close> right after it returns
  \<open>SCU_ERROR_NONE\<close> and the same list whatever the allocator would answer: it does
  not reallocate.
\<close>

theorem trimToCount_then_noop:
  assumes "scu_list_valid l"
    and "scu_list_trimToCountInternal l mem = Some (SCU_ERROR_NONE, l')"
  shows "scu_list_capacityInternal l' = scu_list_countInternal l' \<and>
         scu_list_countInternal l' = scu_list_countInternal l \<and>
         scu_list_trimToCountInternal l' mem' = Some (SCU_ERROR_NONE, l')"
  using assms
  by (auto simp: scu_list_trimToCountInternal_def scu_list_capacityInternal_def
      scu_list_countInternal_def scu_list_valid_def bind_eq_Some_conv
      split: if_splits option.splits)

theorem trimToCount_then_noop_witness:
  "scu_list_valid \<lparr>capacity = 8, count = 3, itemSize = 1, items = [1, 2, 3, 0, 0, 0, 0, 0]\<rparr> \<and>
   scu_list_trimToCountInternal
     \<lparr>capacity = 8, count = 3, itemSize = 1, items = [1, 2, 3, 0, 0, 0, 0, 0]\<rparr> (Some (\<lambda>k. 0)) =
     Some (SCU_ERROR_NONE, \<lparr>capacity = 3, count = 3, itemSize = 1, items = [1, 2, 3]\<rparr>) \<and>
   scu_list_capacityInternal \<lparr>capacity = 3, count = 3, itemSize = 1, items = [1, 2, 3]\<rparr> = 3 \<and>
   scu_list_trimToCountInternal \<lparr>capacity = 3, count = 3, itemSize = 1, items = [1, 2, 3]\<rparr> None =
     Some (SCU_ERROR_NONE, \<lparr>capacity = 3, count = 3, itemSize = 1, items = [1, 2, 3]\<rparr>)"
proof -
  let ?l = "\<lparr>capacity = 8, count = 3, itemSize = 1, items = [1, 2, 3, 0, 0, 0, 0, 0 :: byte]\<rparr>"
  let ?l' = "\<lparr>capacity = 3, count = 3, itemSize = 1, items = [1, 2, 3 :: byte]\<rparr>"
  have v: "scu_list_valid ?l" by (simp add: scu_list_valid_def INT64_MAX_def)
  have t: "scu_list_trimToCountInternal ?l (Some (\<lambda>k. 0)) = Some (SCU_ERROR_NONE, ?l')"
    by code_simp
  from trimToCount_then_noop[OF v t, of None] v t show ?thesis
    by (simp add: scu_list_capacityInternal_def scu_list_countInternal_def)
qed

section \<open>Range operations with count zero\<close>

text \<open>
  Claim C9. On a live list, \<open>addRange\<close>, \<open>insertRange\<close> at any index in
  \<open>[0, count]\<close> and \<open>removeRange\<close> at any index in \<open>[0, count]\<close>, each with count
  argument \<open>0\<close>, return \<open>SCU_ERROR_NONE\<close> and leave the list exactly as it was,
  for every items pointer (also the null pointer, \<open>src = Null\<close>) and every answer the
  allocator would give (it is not asked); \<open>removeRange(count, 0)\<close> is included.
\<close>

theorem zero_count_range_noop:
  assumes "scu_list_valid l"
  shows "scu_list_addRangeInternal l src 0 mem = Some (SCU_ERROR_NONE, l) \<and>
         (0 \<le> i \<and> i \<le> count l \<longrightarrow>
            scu_list_insertRangeInternal l i src 0 mem = Some (SCU_ERROR_NONE, l) \<and>
            scu_list_removeRangeInternal l i 0 = Some (SCU_ERROR_NONE, l))"
proof -
  have a: "scu_list_addRangeInternal l src 0 mem = Some (SCU_ERROR_NONE, l)"
    by (simp add: scu_list_addRangeInternal_def)
  have b: "scu_list_insertRangeInternal l i src 0 mem = Some (SCU_ERROR_NONE, l)"
    if "0 \<le> i" "i \<le> count l"
    using that by (simp add: scu_list_insertRangeInternal_def)
  have c: "scu_list_removeRangeInternal l i 0 = Some (SCU_ERROR_NONE, l)"
    if "0 \<le> i" "i \<le> count l"
  proof -
    have "i \<le> capacity l" using that assms by (simp add: scu_list_valid_def)
    then have "in_int64 i" using valid_count_in_int64(1)[OF assms that(1)] by simp
    then show ?thesis using that by (simp add: scu_list_removeRangeInternal_def add64_def)
  qed
  from a b c show ?thesis by blast
qed

theorem zero_count_range_noop_witness:
  "scu_list_valid \<lparr>capacity = 3, count = 3, itemSize = 1, items = [10, 20, 30]\<rparr> \<and>
   scu_list_addRangeInternal \<lparr>capacity = 3, count = 3, itemSize = 1, items = [10, 20, 30]\<rparr> Null 0 None =
     Some (SCU_ERROR_NONE, \<lparr>capacity = 3, count = 3, itemSize = 1, items = [10, 20, 30]\<rparr>) \<and>
   scu_list_insertRangeInternal \<lparr>capacity = 3, count = 3, itemSize = 1, items = [10, 20, 30]\<rparr> 3 Null 0 None =
     Some (SCU_ERROR_NONE, \<lparr>capacity = 3, count = 3, itemSize = 1, items = [10, 20, 30]\<rparr>) \<and>
   scu_list_removeRangeInternal \<lparr>capacity = 3, count = 3, itemSize = 1, items = [10, 20, 30]\<rparr> 3 0 =
     Some (SCU_ERROR_NONE, \<lparr>capacity = 3, count = 3, itemSize = 1, items = [10, 20, 30]\<rparr>)"
proof -
  let ?l = "\<lparr>capacity = 3, count = 3, itemSize = 1, items = [10, 20, 30 :: byte]\<rparr>"
  have v: "scu_list_valid ?l" by (simp add: scu_list_valid_def INT64_MAX_def)
  from zero_count_range_noop[OF v, of Null None 3] v show ?thesis by simp
qed

section \<open>Inserting and removing one item\<close>

text \<open>
  Claim C4. A successful \<open>insertAt(i, x)\<close> on a live list raises the count by one,
  leaves every item before index \<open>i\<close> where it was, puts the bytes of \<open>x\<close> at index
  \<open>i\<close>, and moves every item that was at an index \<open>j\<close> from \<open>i\<close> on to \<open>j + 1\<close>.
  In the scenario of a list of three items at capacity \<open>3\<close>, inserting at index \<open>1\<close>
  relocates to capacity \<open>8\<close> and yields the four items old 0, \<open>x\<close>, old 1, old 2;
  the witness runs it on \<open>[1, 2, 3]\<close> with \<open>x = 99\<close>.
\<close>

theorem insertAt_shifts_right:
  assumes v: "scu_list_valid l"
    and r: "scu_list_insertAtInternal l i x mem = Some (SCU_ERROR_NONE, l')"
  shows "count l' = count l + 1 \<and>
         scu_item l' i = take (nat (itemSize l)) x \<and>
         (\<forall>j. 0 \<le> j \<and> j < i \<longrightarrow> scu_item l' j = scu_item l j) \<and>
         (\<forall>j. i \<le> j \<and> j < count l \<longrightarrow> scu_item l' (j + 1) = scu_item l j) \<and>
         (capacity l = 3 \<and> count l = 3 \<and> i = 1 \<longrightarrow>
            capacity l' = 8 \<and> count l' = 4 \<and>
            scu_list_elems l' = [scu_item l 0, take (nat (itemSize l)) x, scu_item l 1, scu_item l 2])"
proof -
  let ?S = "nat (itemSize l)"
  from insertAt_ok[OF v r] obtain l1 where
      x: "itemSize l \<le> int (length x)" and i: "0 \<le> i" "i \<le> count l"
    and v': "scu_list_valid l'" and c: "count l' = count l + 1" and s: "itemSize l' = itemSize l"
    and live: "scu_live l' = take (nat (i * itemSize l)) (scu_live l) @ take ?S x @
                            drop (nat (i * itemSize l)) (scu_live l)"
    and e: "scu_list_ensureCapacityInternal l (count l + 1) mem = Some (SCU_ERROR_NONE, l1)"
    and cap: "capacity l' = capacity l1"
    by blast
  have lx: "length (take ?S x) = nat 1 * ?S" using x by simp
  note I = items_after_insertion[OF v v' s c i _ lx live, simplified]
  have at: "scu_item l' i = take ?S x"
    using I[where k = 0 and j = 0] by (simp add: chunk_0_take)
  have before: "\<forall>j. 0 \<le> j \<and> j < i \<longrightarrow> scu_item l' j = scu_item l j"
    using I by blast
  have after: "\<forall>j. i \<le> j \<and> j < count l \<longrightarrow> scu_item l' (j + 1) = scu_item l j"
    using I by blast
  have scen: "capacity l' = 8 \<and> count l' = 4 \<and>
      scu_list_elems l' = [scu_item l 0, take ?S x, scu_item l 1, scu_item l 2]"
    if h: "capacity l = 3" "count l = 3" "i = 1"
  proof -
    have "scu_grow_loop 8 4 = Some 8" by (rule scu_grow_loop_done) simp
    with e h have "capacity l1 = 8"
      by (auto simp: scu_list_ensureCapacityInternal_def SCU_MAX_def SCU_INITIAL_CAPACITY_def
          bind_eq_Some_conv split: option.splits)
    moreover have "scu_item l' 0 = scu_item l 0" using before h by simp
    moreover have "scu_item l' 1 = take ?S x" using at h by simp
    moreover have "scu_item l' 2 = scu_item l 1" using after[rule_format, of 1] h by simp
    moreover have "scu_item l' 3 = scu_item l 2" using after[rule_format, of 2] h by simp
    ultimately show ?thesis using c h cap by (simp add: scu_list_elems_def upt_4)
  qed
  from c at before after scen show ?thesis by blast
qed

theorem insertAt_shifts_right_witness:
  "scu_list_valid \<lparr>capacity = 3, count = 3, itemSize = 1, items = [1, 2, 3]\<rparr> \<and>
   scu_list_insertAtInternal \<lparr>capacity = 3, count = 3, itemSize = 1, items = [1, 2, 3]\<rparr> 1 [99]
       (Some (\<lambda>k. 0)) =
     Some (SCU_ERROR_NONE,
       \<lparr>capacity = 8, count = 4, itemSize = 1, items = [1, 99, 2, 3, 0, 0, 0, 0]\<rparr>) \<and>
   scu_list_elems \<lparr>capacity = 8, count = 4, itemSize = 1, items = [1, 99, 2, 3, 0, 0, 0, 0]\<rparr> =
     [[1], [99], [2], [3]]"
proof -
  let ?l = "\<lparr>capacity = 3, count = 3, itemSize = 1, items = [1, 2, 3 :: byte]\<rparr>"
  let ?l' = "\<lparr>capacity = 8, count = 4, itemSize = 1, items = [1, 99, 2, 3, 0, 0, 0, 0 :: byte]\<rparr>"
  have v: "scu_list_valid ?l" by (simp add: scu_list_valid_def INT64_MAX_def)
  have r: "scu_list_insertAtInternal ?l 1 [99] (Some (\<lambda>k. 0)) = Some (SCU_ERROR_NONE, ?l')"
    by code_simp
  have "scu_list_elems ?l' = [scu_item ?l 0, take (nat (itemSize ?l)) [99], scu_item ?l 1, scu_item ?l 2]"
    using insertAt_shifts_right[OF v r] by simp
  then have "scu_list_elems ?l' = [[1], [99], [2], [3]]" by (simp add: scu_item_def)
  with v r show ?thesis by simp
qed

text \<open>
  Claim C5. On a live list, \<open>removeAt(i)\<close> with \<open>0 \<le> i < count\<close> succeeds, lowers
  the count by exactly one, leaves the items before \<open>i\<close> where they were and moves every
  item that was at an index \<open>j > i\<close> to \<open>j - 1\<close>. On a list of five items,
  \<open>removeRange(1, 2)\<close> leaves the three items old 0, old 3, old 4; the witness runs
  both on \<open>[10, 20, 30, 40, 50]\<close>.
\<close>

theorem removeAt_shifts_left:
  assumes v: "scu_list_valid l"
  shows "(0 \<le> i \<and> i < count l \<longrightarrow>
          (\<exists>l'. scu_list_removeAtInternal l i = Some (SCU_ERROR_NONE, l') \<and>
                count l' = count l - 1 \<and>
                (\<forall>j. 0 \<le> j \<and> j < i \<longrightarrow> scu_item l' j = scu_item l j) \<and>
                (\<forall>j. i < j \<and> j < count l \<longrightarrow> scu_item l' (j - 1) = scu_item l j))) \<and>
         (count l = 5 \<longrightarrow>
          (\<exists>l'. scu_list_removeRangeInternal l 1 2 = Some (SCU_ERROR_NONE, l') \<and>
                count l' = 3 \<and>
                scu_list_elems l' = [scu_item l 0, scu_item l 3, scu_item l 4]))"
proof -
  have A: "\<exists>l'. scu_list_removeAtInternal l i = Some (SCU_ERROR_NONE, l') \<and>
                count l' = count l - 1 \<and>
                (\<forall>j. 0 \<le> j \<and> j < i \<longrightarrow> scu_item l' j = scu_item l j) \<and>
                (\<forall>j. i < j \<and> j < count l \<longrightarrow> scu_item l' (j - 1) = scu_item l j)"
    if i: "0 \<le> i" "i < count l"
  proof -
    from removeAt_defined[OF v i] obtain l' where
        r: "scu_list_removeAtInternal l i = Some (SCU_ERROR_NONE, l')"
      and v': "scu_list_valid l'" and c: "count l' = count l - 1" and s: "itemSize l' = itemSize l"
      and live: "scu_live l' = take (nat (i * itemSize l)) (scu_live l) @
                              drop (nat (i * itemSize l) + nat (itemSize l)) (scu_live l)"
      by blast
    have le: "i + 1 \<le> count l" using i by simp
    have live1: "scu_live l' = take (nat (i * itemSize l)) (scu_live l) @
                              drop (nat (i * itemSize l) + nat (1 * itemSize l)) (scu_live l)"
      using live by simp
    note I = items_after_removal[OF v v' s c i(1) _ le live1, simplified]
    have before: "\<forall>j. 0 \<le> j \<and> j < i \<longrightarrow> scu_item l' j = scu_item l j" using I by blast
    have after: "\<forall>j. i < j \<and> j < count l \<longrightarrow> scu_item l' (j - 1) = scu_item l j"
    proof (intro allI impI)
      fix j assume "i < j \<and> j < count l"
      then show "scu_item l' (j - 1) = scu_item l j" using I[of "j - 1"] by simp
    qed
    from r c before after show ?thesis by blast
  qed
  have B: "\<exists>l'. scu_list_removeRangeInternal l 1 2 = Some (SCU_ERROR_NONE, l') \<and>
                count l' = 3 \<and> scu_list_elems l' = [scu_item l 0, scu_item l 3, scu_item l 4]"
    if h: "count l = 5"
  proof -
    have "\<exists>l'. scu_list_removeRangeInternal l 1 2 = Some (SCU_ERROR_NONE, l') \<and>
           scu_list_valid l' \<and> count l' = count l - 2 \<and> itemSize l' = itemSize l \<and>
           capacity l' = capacity l \<and>
           scu_live l' = take (nat (1 * itemSize l)) (scu_live l) @
                         drop (nat (1 * itemSize l) + nat (2 * itemSize l)) (scu_live l)"
      using h by (intro removeRange_defined[OF v]) auto
    then obtain l' where
        r: "scu_list_removeRangeInternal l 1 2 = Some (SCU_ERROR_NONE, l')"
      and v': "scu_list_valid l'" and c: "count l' = count l - 2" and s: "itemSize l' = itemSize l"
      and live: "scu_live l' = take (nat (1 * itemSize l)) (scu_live l) @
                         drop (nat (1 * itemSize l) + nat (2 * itemSize l)) (scu_live l)"
      by blast
    have le: "1 + 2 \<le> count l" using h by simp
    note I = items_after_removal[OF v v' s c _ _ le live, simplified]
    have "scu_item l' 0 = scu_item l 0" using I[of 0] by simp
    moreover have "scu_item l' 1 = scu_item l 3" using I[of 1] h by simp
    moreover have "scu_item l' 2 = scu_item l 4" using I[of 2] h by simp
    ultimately have "scu_list_elems l' = [scu_item l 0, scu_item l 3, scu_item l 4]"
      using c h by (simp add: scu_list_elems_def upt_3)
    with r c h show ?thesis by auto
  qed
  from A B show ?thesis by blast
qed

theorem removeAt_shifts_left_witness:
  "scu_list_valid \<lparr>capacity = 5, count = 5, itemSize = 1, items = [10, 20, 30, 40, 50]\<rparr> \<and>
   scu_list_removeAtInternal \<lparr>capacity = 5, count = 5, itemSize = 1, items = [10, 20, 30, 40, 50]\<rparr> 1 =
     Some (SCU_ERROR_NONE, \<lparr>capacity = 5, count = 4, itemSize = 1, items = [10, 30, 40, 50, 50]\<rparr>) \<and>
   scu_list_elems \<lparr>capacity = 5, count = 4, itemSize = 1, items = [10, 30, 40, 50, 50]\<rparr> =
     [[10], [30], [40], [50]] \<and>
   scu_list_removeRangeInternal \<lparr>capacity = 5, count = 5, itemSize = 1, items = [10, 20, 30, 40, 50]\<rparr> 1 2 =
     Some (SCU_ERROR_NONE, \<lparr>capacity = 5, count = 3, itemSize = 1, items = [10, 40, 50, 40, 50]\<rparr>) \<and>
   scu_list_elems \<lparr>capacity = 5, count = 3, itemSize = 1, items = [10, 40, 50, 40, 50]\<rparr> =
     [[10], [40], [50]]"
proof -
  let ?l = "\<lparr>capacity = 5, count = 5, itemSize = 1, items = [10, 20, 30, 40, 50 :: byte]\<rparr>"
  let ?l1 = "\<lparr>capacity = 5, count = 4, itemSize = 1, items = [10, 30, 40, 50, 50 :: byte]\<rparr>"
  let ?l2 = "\<lparr>capacity = 5, count = 3, itemSize = 1, items = [10, 40, 50, 40, 50 :: byte]\<rparr>"
  have v: "scu_list_valid ?l" by (simp add: scu_list_valid_def INT64_MAX_def)
  have r1: "scu_list_removeAtInternal ?l 1 = Some (SCU_ERROR_NONE, ?l1)" by code_simp
  have r2: "scu_list_removeRangeInternal ?l 1 2 = Some (SCU_ERROR_NONE, ?l2)" by code_simp
  have e1: "scu_list_elems ?l1 = [[10], [30], [40], [50]]" by code_simp
  have "scu_list_elems ?l2 = [scu_item ?l 0, scu_item ?l 3, scu_item ?l 4]"
    using removeAt_shifts_left[OF v, of 1] r2 by simp
  then have e2: "scu_list_elems ?l2 = [[10], [40], [50]]" by (simp add: scu_item_def)
  from v r1 r2 e1 e2 show ?thesis by simp
qed

section \<open>Range operations and sequences of single steps\<close>

lemma scu_grow_loop_compose:
  assumes "scu_grow_loop x a = Some y"
  shows "0 < x \<longrightarrow> (\<forall>b. a \<le> b \<longrightarrow> scu_grow_loop y b = scu_grow_loop x b)"
proof (rule scu_grow_loop.raw_induct[OF _ assms], goal_cases)
  case (1 loop x a y)
  show ?case
  proof (cases "x < a")
    case False
    with 1(2) show ?thesis by simp
  next
    case True
    show ?thesis
    proof (intro impI allI)
      fix b assume pos: "0 < x" and ab: "a \<le> b"
      from 1(2) True have bd: "mul64 x 3 \<bind> (\<lambda>t. div64 t 2 \<bind> (\<lambda>d. add64 d 1 \<bind> (\<lambda>n. loop n a))) = Some y"
        by simp
      then have r: "in_int64 (x * 3)" by (auto simp: bind_eq_Some_conv)
      have t: "trunc_div (x * 3) 2 = x * 3 div 2" using pos by (simp add: trunc_div_nonneg)
      from bd r have "loop (grow_step x) a = Some y"
        by (auto simp: bind_eq_Some_conv t grow_step_def)
      from 1(1)[OF this] grow_step_pos[OF pos] pos ab
      have "scu_grow_loop y b = scu_grow_loop (grow_step x) b" by simp
      also have "\<dots> = scu_grow_loop x b"
        using scu_grow_loop_step[of x b] True ab pos r by (simp add: in_int64_def)
      finally show "scu_grow_loop y b = scu_grow_loop x b" .
    qed
  qed
qed

lemma capacity_for_compose:
  assumes "scu_capacity_for c a = Some c'" "a \<le> b"
  shows "scu_capacity_for c' b = scu_capacity_for c b"
proof (cases "c < a")
  case False
  with assms show ?thesis by (simp add: scu_capacity_for_def)
next
  case True
  let ?x = "SCU_MAX c SCU_INITIAL_CAPACITY"
  have x: "0 < ?x" "8 \<le> ?x" by (simp_all add: SCU_MAX_def SCU_INITIAL_CAPACITY_def)
  from assms(1) True have g: "scu_grow_loop ?x a = Some c'" by (simp add: scu_capacity_for_def)
  from scu_grow_loop_chain[OF g] x have c': "?x \<le> c'" "a \<le> c'" by auto
  then have m: "SCU_MAX c' SCU_INITIAL_CAPACITY = c'"
    using x by (simp add: SCU_MAX_def SCU_INITIAL_CAPACITY_def)
  from scu_grow_loop_compose[OF g] x assms(2)
  have e: "scu_grow_loop c' b = scu_grow_loop ?x b" by simp
  have cb: "c < b" using True assms(2) by simp
  show ?thesis
  proof (cases "c' < b")
    case True
    then show ?thesis using cb e m by (simp add: scu_capacity_for_def)
  next
    case False
    then have "scu_grow_loop c' b = Some c'" by (rule scu_grow_loop_done)
    then show ?thesis using False cb e by (simp add: scu_capacity_for_def)
  qed
qed

lemma ensure_capacity_for:
  assumes "scu_list_ensureCapacityInternal l cap mem = Some (SCU_ERROR_NONE, l')"
  shows "scu_capacity_for (capacity l) cap = Some (capacity l')"
  using assms
  by (auto simp: scu_list_ensureCapacityInternal_def scu_capacity_for_def bind_eq_Some_conv
      split: if_splits option.splits)

lemma elems_eq:
  assumes "scu_live l1 = scu_live l2" "count l1 = count l2" "itemSize l1 = itemSize l2"
    "0 < itemSize l1"
  shows "scu_list_elems l1 = scu_list_elems l2"
proof -
  have "scu_item l1 (int k) = scu_item l2 (int k)" if "k < nat (count l1)" for k
    using that by (intro live_eq_imp_item_eq[OF assms]) auto
  then show ?thesis using assms(2) by (simp add: scu_list_elems_def)
qed

lemma insert_each_ok:
  assumes "scu_list_valid l" "scu_insert_each l i src mems = Some (SCU_ERROR_NONE, l2)"
  shows "scu_list_valid l2 \<and> count l2 = count l + int (length mems) \<and> itemSize l2 = itemSize l \<and>
         scu_capacity_for (capacity l) (count l + int (length mems)) = Some (capacity l2) \<and>
         (mems \<noteq> [] \<longrightarrow> 0 \<le> i \<and> i \<le> count l) \<and>
         (0 \<le> i \<and> i \<le> count l \<longrightarrow>
          scu_live l2 = take (nat (i * itemSize l)) (scu_live l) @
                        take (length mems * nat (itemSize l)) src @
                        drop (nat (i * itemSize l)) (scu_live l))"
  using assms
proof (induction mems arbitrary: l i src)
  case Nil
  then have "l2 = l" by simp
  moreover have "\<not> capacity l < count l" using Nil(1) by (simp add: scu_list_valid_def)
  ultimately show ?case using Nil(1) by (simp add: scu_capacity_for_def)
next
  case (Cons m ms)
  let ?s = "itemSize l" let ?S = "nat ?s" let ?L = "scu_live l" let ?a = "nat (i * ?s)"
  from Cons.prems(2) obtain l' where
      r: "scu_list_insertAtInternal l i src m = Some (SCU_ERROR_NONE, l')"
    and rest: "scu_insert_each l' (i + 1) (drop ?S src) ms = Some (SCU_ERROR_NONE, l2)"
    by (auto split: option.splits prod.splits SCUError.splits)
  from insertAt_ok[OF Cons.prems(1) r] obtain l1 where
      x: "?s \<le> int (length src)" and i: "0 \<le> i" "i \<le> count l"
    and v': "scu_list_valid l'" and c': "count l' = count l + 1" and s': "itemSize l' = ?s"
    and live': "scu_live l' = take ?a ?L @ take ?S src @ drop ?a ?L"
    and e: "scu_list_ensureCapacityInternal l (count l + 1) m = Some (SCU_ERROR_NONE, l1)"
    and cap': "capacity l' = capacity l1"
    by blast
  have sz: "0 < ?s" using Cons.prems(1) by (simp add: scu_list_valid_def)
  from Cons.IH[OF v' rest] i c' s'
  have v2: "scu_list_valid l2" and c2: "count l2 = count l + 1 + int (length ms)"
    and s2: "itemSize l2 = ?s"
    and k2: "scu_capacity_for (capacity l') (count l + 1 + int (length ms)) = Some (capacity l2)"
    and live2: "scu_live l2 = take (nat ((i + 1) * ?s)) (scu_live l') @
                   take (length ms * ?S) (drop ?S src) @ drop (nat ((i + 1) * ?s)) (scu_live l')"
    by simp_all
  have k1: "scu_capacity_for (capacity l) (count l + 1) = Some (capacity l')"
    using ensure_capacity_for[OF e] cap' by simp
  have k: "scu_capacity_for (capacity l) (count l + 1 + int (length ms)) = Some (capacity l2)"
    using capacity_for_compose[OF k1, of "count l + 1 + int (length ms)"] k2 by simp
  have lenL: "length ?L = nat (count l) * ?S" by (rule length_live[OF Cons.prems(1)])
  have aL: "?a \<le> length ?L"
    using i sz lenL by (simp add: nat_mult_distrib mult_le_mono1 nat_mono)
  have la: "length (take ?a ?L) = ?a" using aL by simp
  have lx: "length (take ?S src) = ?S" using x by simp
  have n1: "nat ((i + 1) * ?s) = ?a + ?S" using i sz by (simp add: distrib_right nat_add_distrib)
  have t: "take (?a + ?S) (scu_live l') = take ?a ?L @ take ?S src"
    unfolding live' using la lx by simp
  have d: "drop (?a + ?S) (scu_live l') = drop ?a ?L"
    unfolding live' using la lx by simp
  have j: "take ?S src @ take (length ms * ?S) (drop ?S src) = take (length (m # ms) * ?S) src"
    by (simp add: take_add)
  have "scu_live l2 = take ?a ?L @ (take ?S src @ take (length ms * ?S) (drop ?S src)) @ drop ?a ?L"
    using live2 by (simp only: n1 t d append_assoc)
  then have live: "scu_live l2 = take ?a ?L @ take (length (m # ms) * ?S) src @ drop ?a ?L"
    by (simp only: j)
  from v2 c2 s2 k i live show ?case by (simp add: add.assoc)
qed

lemma remove_each_ok:
  assumes "scu_list_valid l" "0 \<le> i" "i + int n \<le> count l"
  shows "\<exists>l2. scu_remove_each l i n = Some (SCU_ERROR_NONE, l2) \<and>
           scu_list_valid l2 \<and> count l2 = count l - int n \<and> itemSize l2 = itemSize l \<and>
           capacity l2 = capacity l \<and>
           scu_live l2 = take (nat (i * itemSize l)) (scu_live l) @
                         drop (nat (i * itemSize l) + n * nat (itemSize l)) (scu_live l)"
  using assms
proof (induction n arbitrary: l)
  case 0
  then show ?case by simp
next
  case (Suc n)
  let ?s = "itemSize l" let ?S = "nat ?s" let ?L = "scu_live l" let ?a = "nat (i * ?s)"
  have il: "i < count l" using Suc.prems by simp
  from removeAt_defined[OF Suc.prems(1,2) il] obtain l' where
      r: "scu_list_removeAtInternal l i = Some (SCU_ERROR_NONE, l')"
    and v': "scu_list_valid l'" and c': "count l' = count l - 1" and s': "itemSize l' = ?s"
    and cap': "capacity l' = capacity l"
    and live': "scu_live l' = take ?a ?L @ drop (?a + ?S) ?L"
    by blast
  have le': "i + int n \<le> count l'" using Suc.prems(3) c' by simp
  from Suc.IH[OF v' Suc.prems(2) le'] obtain l2 where
      r2: "scu_remove_each l' i n = Some (SCU_ERROR_NONE, l2)"
    and v2: "scu_list_valid l2" and c2: "count l2 = count l' - int n" and s2: "itemSize l2 = itemSize l'"
    and cap2: "capacity l2 = capacity l'"
    and live2: "scu_live l2 = take (nat (i * itemSize l')) (scu_live l') @
                   drop (nat (i * itemSize l') + n * nat (itemSize l')) (scu_live l')"
    by blast
  have sz: "0 < ?s" using Suc.prems(1) by (simp add: scu_list_valid_def)
  have lenL: "length ?L = nat (count l) * ?S" by (rule length_live[OF Suc.prems(1)])
  have aL: "?a \<le> length ?L"
    using Suc.prems(2) il sz lenL by (simp add: nat_mult_distrib mult_le_mono1 nat_mono)
  have la: "length (take ?a ?L) = ?a" using aL by simp
  have t: "take ?a (scu_live l') = take ?a ?L" unfolding live' using la by simp
  have d: "drop (?a + n * ?S) (scu_live l') = drop (?a + Suc n * ?S) ?L"
    unfolding live' using la by (simp add: add.commute add.left_commute)
  have live: "scu_live l2 = take ?a ?L @ drop (?a + Suc n * ?S) ?L"
    using live2 by (simp only: s' t d)
  have "scu_remove_each l i (Suc n) = Some (SCU_ERROR_NONE, l2)" using r r2 by simp
  with v2 c2 c' s2 s' cap2 cap' live show ?case by simp
qed

lemma removeRange_zero:
  assumes "scu_list_valid l" "0 \<le> i" "i \<le> count l"
  shows "scu_list_removeRangeInternal l i 0 = Some (SCU_ERROR_NONE, l)"
proof -
  have "i \<le> capacity l" using assms by (simp add: scu_list_valid_def)
  then have "in_int64 i" using valid_count_in_int64(1)[OF assms(1,2)] by simp
  then show ?thesis using assms by (simp add: scu_list_removeRangeInternal_def add64_def)
qed

section \<open>The growth policy\<close>

lemma chunk_concat:
  assumes "\<forall>b\<in>set bs. length b = S" "k < length bs"
  shows "chunk S k (concat bs) = bs ! k"
  using assms
proof (induction bs arbitrary: k)
  case Nil
  then show ?case by simp
next
  case (Cons b bs)
  show ?case
  proof (cases k)
    case 0
    then show ?thesis using Cons.prems by (simp add: chunk_def)
  next
    case (Suc k')
    have "drop (Suc k' * S) (concat (b # bs)) = drop (k' * S) (concat bs)"
      using Cons.prems(1) by simp
    then have "chunk S (Suc k') (concat (b # bs)) = chunk S k' (concat bs)"
      by (simp add: chunk_def)
    then show ?thesis using Suc Cons.IH[of k'] Cons.prems by simp
  qed
qed

lemma elems_of_live:
  assumes "0 < itemSize l" "scu_live l = concat bs" "\<forall>b\<in>set bs. length b = nat (itemSize l)"
    "length bs = nat (count l)"
  shows "scu_list_elems l = bs"
proof -
  have "scu_item l (int k) = bs ! k" if "k < nat (count l)" for k
  proof -
    have "scu_item l (int k) = chunk (nat (itemSize l)) (nat (int k)) (scu_live l)"
      using that assms(1) by (intro item_of_live) auto
    then show ?thesis using chunk_concat[OF assms(3), of k] that assms(2,4) by simp
  qed
  then have "scu_list_elems l = map (\<lambda>k. bs ! k) [0..<length bs]"
    by (simp add: scu_list_elems_def assms(4))
  then show ?thesis by (simp add: map_nth)
qed

lemma add_each_ok:
  assumes "scu_list_valid l" "scu_add_each l xs = Some (SCU_ERROR_NONE, l')"
  shows "scu_list_valid l' \<and> count l' = count l + int (length xs) \<and> itemSize l' = itemSize l \<and>
         scu_capacity_for (capacity l) (count l + int (length xs)) = Some (capacity l') \<and>
         scu_live l' = scu_live l @ concat (map (\<lambda>x. take (nat (itemSize l)) (fst x)) xs) \<and>
         (\<forall>x\<in>set xs. nat (itemSize l) \<le> length (fst x))"
  using assms
proof (induction xs arbitrary: l)
  case Nil
  then have "l' = l" by simp
  moreover have "\<not> capacity l < count l" using Nil(1) by (simp add: scu_list_valid_def)
  ultimately show ?case using Nil(1) by (simp add: scu_capacity_for_def)
next
  case (Cons x xs)
  from Cons.prems(2) obtain l1 where
      r: "scu_list_addInternal l (fst x) (snd x) = Some (SCU_ERROR_NONE, l1)"
    and rest: "scu_add_each l1 xs = Some (SCU_ERROR_NONE, l')"
    by (auto split: option.splits prod.splits SCUError.splits)
  from add_ok[OF Cons.prems(1) r] obtain la where
      x: "itemSize l \<le> int (length (fst x))"
    and v1: "scu_list_valid l1" and c1: "count l1 = count l + 1" and s1: "itemSize l1 = itemSize l"
    and live1: "scu_live l1 = scu_live l @ take (nat (itemSize l)) (fst x)"
    and e: "scu_list_ensureCapacityInternal l (count l + 1) (snd x) = Some (SCU_ERROR_NONE, la)"
    and cap1: "capacity l1 = capacity la"
    by blast
  have k1: "scu_capacity_for (capacity l) (count l + 1) = Some (capacity l1)"
    using ensure_capacity_for[OF e] cap1 by simp
  from Cons.IH[OF v1 rest] c1 s1
  have v': "scu_list_valid l'" and c': "count l' = count l + 1 + int (length xs)"
    and s': "itemSize l' = itemSize l"
    and k2: "scu_capacity_for (capacity l1) (count l + 1 + int (length xs)) = Some (capacity l')"
    and live': "scu_live l' = scu_live l1 @ concat (map (\<lambda>x. take (nat (itemSize l)) (fst x)) xs)"
    and all: "\<forall>x\<in>set xs. nat (itemSize l) \<le> length (fst x)"
    by simp_all
  have k: "scu_capacity_for (capacity l) (count l + 1 + int (length xs)) = Some (capacity l')"
    using capacity_for_compose[OF k1, of "count l + 1 + int (length xs)"] k2 by simp
  from v' c' s' k live' live1 all x show ?case by (simp add: add.assoc)
qed

lemma new_list_valid:
  assumes "scu_list_newInternal isz mem = Some (Some l)"
  shows "scu_list_valid l \<and> capacity l = 8 \<and> count l = 0 \<and> itemSize l = isz"
  using assms
  by (auto simp: scu_list_newInternal_def scu_list_withCapacityInternal_def SCU_INITIAL_CAPACITY_def
      SCU_MALLOC_def scu_list_valid_def in_int64_def bind_eq_Some_conv
      split: if_splits option.splits)

lemma capacity_for_8_9: "scu_capacity_for 8 9 = Some 13"
proof -
  have "scu_grow_loop 8 9 = scu_grow_loop (grow_step 8) 9"
    by (rule scu_grow_loop_step) (simp_all add: INT64_MAX_def)
  also have "grow_step 8 = 13" by (simp add: grow_step_def)
  also have "scu_grow_loop 13 9 = Some 13" by (rule scu_grow_loop_done) simp
  finally show ?thesis by (simp add: scu_capacity_for_def SCU_MAX_def SCU_INITIAL_CAPACITY_def)
qed

lemma withCapacity_valid:
  assumes "scu_list_withCapacityInternal cap isz mem = Some (Some l)"
  shows "scu_list_valid l \<and> capacity l = cap \<and> count l = 0 \<and> itemSize l = isz"
  using assms
  by (auto simp: scu_list_withCapacityInternal_def SCU_MALLOC_def scu_list_valid_def in_int64_def
      bind_eq_Some_conv split: if_splits option.splits)

lemma ensure_defined:
  assumes v: "scu_list_valid l" and n: "0 \<le> n"
    and c: "n \<le> capacity l \<or>
            (mem \<noteq> None \<and> scu_capacity_for (capacity l) n = Some nc \<and> nc * itemSize l \<le> INT64_MAX)"
  shows "\<exists>l1. scu_list_ensureCapacityInternal l n mem = Some (SCU_ERROR_NONE, l1)"
proof (cases "n \<le> capacity l")
  case True
  with n show ?thesis by (simp add: scu_list_ensureCapacityInternal_def)
next
  case False
  with c obtain g where mem: "mem = Some g"
    and k: "scu_capacity_for (capacity l) n = Some nc" and r: "nc * itemSize l \<le> INT64_MAX"
    by auto
  from k False have g: "scu_grow_loop (SCU_MAX (capacity l) SCU_INITIAL_CAPACITY) n = Some nc"
    by (simp add: scu_capacity_for_def)
  have "0 < SCU_MAX (capacity l) SCU_INITIAL_CAPACITY"
    by (simp add: SCU_MAX_def SCU_INITIAL_CAPACITY_def)
  with scu_grow_loop_chain[OF g] n have "0 \<le> nc" by auto
  moreover have "0 < itemSize l" using v by (simp add: scu_list_valid_def)
  ultimately have "0 \<le> nc * itemSize l" by simp
  with r have "in_int64 (nc * itemSize l)" by (simp add: in_int64_def INT64_MIN_def)
  then show ?thesis using False n g mem
    by (simp add: scu_list_ensureCapacityInternal_def mul64_def SCU_REALLOC_def)
qed

lemma add_defined:
  assumes v: "scu_list_valid l" and x: "itemSize l \<le> int (length x)"
    and e: "scu_list_ensureCapacityInternal l (count l + 1) mem = Some (SCU_ERROR_NONE, l1)"
  shows "\<exists>l'. scu_list_addInternal l x mem = Some (SCU_ERROR_NONE, l')"
proof -
  from ensure_ok[OF v e] have v1: "scu_list_valid l1" and c1: "count l1 = count l"
    and s1: "itemSize l1 = itemSize l" and cap1: "count l + 1 \<le> capacity l1" by simp_all
  have c0: "0 \<le> count l" and sz: "0 < itemSize l" using v by (simp_all add: scu_list_valid_def)
  note R = valid_count_in_int64[OF v1]
  have r1: "in_int64 (count l + 1)" using R(1)[of "count l + 1"] c0 cap1 by simp
  have r2: "in_int64 (count l * itemSize l)" using R(2)[of "count l"] c0 cap1 s1 by simp
  have "(count l + 1) * itemSize l \<le> capacity l1 * itemSize l"
    using R(3)[of "count l + 1"] c0 cap1 s1 by simp
  moreover have "int (length (items l1)) = capacity l1 * itemSize l"
    using v1 s1 by (simp add: scu_list_valid_def)
  ultimately have b: "count l * itemSize l + itemSize l \<le> int (length (items l1))"
    by (simp add: distrib_right)
  have nn: "0 \<le> count l * itemSize l" using c0 sz by simp
  show ?thesis
    using e r1 r2 b nn sz x
    by (simp add: scu_list_addInternal_def add64_def scu_list_itemAt_def mul64_def memcpy_def c1 s1)
qed

lemma add_each_append:
  "scu_add_each l (xs @ ys) =
     (case scu_add_each l xs of Some (SCU_ERROR_NONE, l') \<Rightarrow> scu_add_each l' ys | r \<Rightarrow> r)"
proof (induction xs arbitrary: l)
  case Nil
  then show ?case by simp
next
  case (Cons x xs)
  then show ?case by (auto split: option.splits prod.splits SCUError.splits)
qed

lemma add_each_defined_in_capacity:
  assumes "scu_list_valid l" "count l + int (length xs) \<le> capacity l"
    "\<forall>x\<in>set xs. itemSize l \<le> int (length (fst x))"
  shows "\<exists>l'. scu_add_each l xs = Some (SCU_ERROR_NONE, l')"
  using assms
proof (induction xs arbitrary: l)
  case Nil
  then show ?case by simp
next
  case (Cons x xs)
  have n: "0 \<le> count l + 1" using Cons.prems(1) by (simp add: scu_list_valid_def)
  have "count l + 1 \<le> capacity l" using Cons.prems(2) by simp
  then obtain l1 where e: "scu_list_ensureCapacityInternal l (count l + 1) (snd x) = Some (SCU_ERROR_NONE, l1)"
    using ensure_defined[OF Cons.prems(1) n, of "snd x"] by blast
  have "l1 = l" using e \<open>count l + 1 \<le> capacity l\<close>
    by (auto simp: scu_list_ensureCapacityInternal_def split: if_splits)
  have x: "itemSize l \<le> int (length (fst x))" using Cons.prems(3) by simp
  from add_defined[OF Cons.prems(1) x e] obtain l' where
    a: "scu_list_addInternal l (fst x) (snd x) = Some (SCU_ERROR_NONE, l')" by blast
  from add_ok[OF Cons.prems(1) a] e \<open>l1 = l\<close>
  have v': "scu_list_valid l'" and c': "count l' = count l + 1" and s': "itemSize l' = itemSize l"
    and cap': "capacity l' = capacity l" by auto
  have "\<exists>l''. scu_add_each l' xs = Some (SCU_ERROR_NONE, l'')"
    using Cons.prems(2,3) c' s' cap' by (intro Cons.IH[OF v']) auto
  with a show ?case by simp
qed

lemma nine_adds_defined:
  assumes n: "scu_list_newInternal isz mem0 = Some (Some l0)" and len: "length xs = 9"
    and items: "\<forall>x\<in>set xs. isz \<le> int (length (fst x))"
    and mem: "snd (xs ! 8) \<noteq> None" and fit: "13 * isz \<le> INT64_MAX"
  shows "\<exists>l9. scu_add_each l0 xs = Some (SCU_ERROR_NONE, l9)"
proof -
  from new_list_valid[OF n] have v0: "scu_list_valid l0" and cap0: "capacity l0 = 8"
    and c0: "count l0 = 0" and s0: "itemSize l0 = isz" by simp_all
  let ?ys = "take 8 xs" let ?x = "xs ! 8"
  have "take (Suc 8) xs = ?ys @ [?x]" using len by (intro take_Suc_conv_app_nth) simp
  moreover have "take (Suc 8) xs = xs" using len by simp
  ultimately have xs: "xs = ?ys @ [?x]" by simp
  have ly: "length ?ys = 8" using len by simp
  have iy: "\<forall>x\<in>set ?ys. itemSize l0 \<le> int (length (fst x))"
    using items s0 by (meson in_set_takeD)
  from add_each_defined_in_capacity[OF v0 _ iy] ly c0 cap0
  obtain l8 where a8: "scu_add_each l0 ?ys = Some (SCU_ERROR_NONE, l8)" by auto
  from add_each_ok[OF v0 a8] ly c0 cap0 s0
  have v8: "scu_list_valid l8" and c8: "count l8 = 8" and s8: "itemSize l8 = isz"
    and k8: "scu_capacity_for 8 8 = Some (capacity l8)" by simp_all
  have cap8: "capacity l8 = 8" using k8 by (simp add: scu_capacity_for_def)
  have "\<exists>l1. scu_list_ensureCapacityInternal l8 (count l8 + 1) (snd ?x) = Some (SCU_ERROR_NONE, l1)"
    using mem fit capacity_for_8_9 c8 cap8 s8
    by (intro ensure_defined[OF v8, where nc = 13]) auto
  then obtain l1 where
    e: "scu_list_ensureCapacityInternal l8 (count l8 + 1) (snd ?x) = Some (SCU_ERROR_NONE, l1)" by blast
  have "?x \<in> set xs" using len by simp
  then have x: "itemSize l8 \<le> int (length (fst ?x))" using items s8 by simp
  from add_defined[OF v8 x e] obtain l9 where
    a9: "scu_list_addInternal l8 (fst ?x) (snd ?x) = Some (SCU_ERROR_NONE, l9)" by blast
  have "scu_add_each l0 (?ys @ [?x]) = Some (SCU_ERROR_NONE, l9)"
    using a8 a9 by (simp add: add_each_append)
  with xs show ?thesis by metis
qed

text \<open>
  Claim C3. When the capacity \<open>c\<close> of a list is below the required capacity \<open>n\<close>, a
  successful \<open>ensureCapacity(n)\<close> leaves the capacity at the first value that is at
  least \<open>n\<close> in the sequence that starts at \<open>max(c, 8)\<close> and applies
  \<open>new = old*3/2 + 1\<close> again and again (\<open>k\<close> counts the steps; all values are
  positive, where C's division and \<open>div\<close> agree). And a list created with the default
  capacity, after nine successful \<open>add\<close> calls, has capacity exactly \<open>13\<close>, count
  \<open>9\<close>, and reads back the nine items in the order they were added. The nine calls do
  succeed when every item has its \<open>itemSize\<close> bytes, the allocator answers the ninth
  call with a block, and thirteen items fit \<^verbatim>\<open>int64_t\<close>.
\<close>

theorem ensureCapacity_growth:
  "(scu_list_ensureCapacityInternal l n mem = Some (SCU_ERROR_NONE, l') \<and> capacity l < n \<longrightarrow>
      (\<exists>k. capacity l' = (grow_step ^^ k) (max (capacity l) 8) \<and> n \<le> capacity l' \<and>
           (\<forall>j<k. (grow_step ^^ j) (max (capacity l) 8) < n))) \<and>
   (scu_list_newInternal isz mem0 = Some (Some l0) \<and> length xs = 9 \<and>
    scu_add_each l0 xs = Some (SCU_ERROR_NONE, l9) \<longrightarrow>
      capacity l9 = 13 \<and> count l9 = 9 \<and>
      scu_list_elems l9 = map (\<lambda>x. take (nat isz) (fst x)) xs) \<and>
   (scu_list_newInternal isz mem0 = Some (Some l0) \<and> length xs = 9 \<and>
    (\<forall>x\<in>set xs. isz \<le> int (length (fst x))) \<and> snd (xs ! 8) \<noteq> None \<and> 13 * isz \<le> INT64_MAX \<longrightarrow>
      (\<exists>l9. scu_add_each l0 xs = Some (SCU_ERROR_NONE, l9)))"
proof -
  have A: "\<exists>k. capacity l' = (grow_step ^^ k) (max (capacity l) 8) \<and> n \<le> capacity l' \<and>
           (\<forall>j<k. (grow_step ^^ j) (max (capacity l) 8) < n)"
    if e: "scu_list_ensureCapacityInternal l n mem = Some (SCU_ERROR_NONE, l')" and lt: "capacity l < n"
  proof -
    have m: "SCU_MAX (capacity l) SCU_INITIAL_CAPACITY = max (capacity l) 8"
      by (simp add: SCU_MAX_def SCU_INITIAL_CAPACITY_def max_def)
    from ensure_capacity_for[OF e] lt
    have g: "scu_grow_loop (max (capacity l) 8) n = Some (capacity l')"
      by (simp add: scu_capacity_for_def m)
    have "0 < max (capacity l) 8" by simp
    with scu_grow_loop_chain[OF g] show ?thesis by blast
  qed
  have B: "capacity l9 = 13 \<and> count l9 = 9 \<and>
      scu_list_elems l9 = map (\<lambda>x. take (nat isz) (fst x)) xs"
    if n: "scu_list_newInternal isz mem0 = Some (Some l0)" and len: "length xs = 9"
      and a: "scu_add_each l0 xs = Some (SCU_ERROR_NONE, l9)"
  proof -
    from new_list_valid[OF n] have v0: "scu_list_valid l0" and cap0: "capacity l0 = 8"
      and c0: "count l0 = 0" and s0: "itemSize l0 = isz" by simp_all
    from add_each_ok[OF v0 a] cap0 c0 s0 len
    have v9: "scu_list_valid l9" and c9: "count l9 = 9" and s9: "itemSize l9 = isz"
      and k: "scu_capacity_for 8 9 = Some (capacity l9)"
      and live: "scu_live l9 = scu_live l0 @ concat (map (\<lambda>x. take (nat isz) (fst x)) xs)"
      and all: "\<forall>x\<in>set xs. nat isz \<le> length (fst x)"
      by simp_all
    have cap9: "capacity l9 = 13" using k capacity_for_8_9 by simp
    have "scu_live l0 = []" using c0 by (simp add: scu_live_def)
    then have live9: "scu_live l9 = concat (map (\<lambda>x. take (nat isz) (fst x)) xs)"
      using live by simp
    have sz: "0 < itemSize l9" using v9 by (simp add: scu_list_valid_def)
    have "scu_list_elems l9 = map (\<lambda>x. take (nat isz) (fst x)) xs"
      using sz live9 all c9 len s9 by (intro elems_of_live) auto
    with cap9 c9 show ?thesis by simp
  qed
  have C: "\<exists>l9. scu_add_each l0 xs = Some (SCU_ERROR_NONE, l9)"
    if "scu_list_newInternal isz mem0 = Some (Some l0)" "length xs = 9"
      "\<forall>x\<in>set xs. isz \<le> int (length (fst x))" "snd (xs ! 8) \<noteq> None" "13 * isz \<le> INT64_MAX"
    using that by (rule nine_adds_defined)
  from A B C show ?thesis by blast
qed

theorem ensureCapacity_growth_witness:
  "scu_list_ensureCapacityInternal
       \<lparr>capacity = 8, count = 8, itemSize = 1, items = [0, 1, 2, 3, 4, 5, 6, 7]\<rparr> 9 (Some (\<lambda>k. 0)) =
     Some (SCU_ERROR_NONE,
       \<lparr>capacity = 13, count = 8, itemSize = 1, items = [0, 1, 2, 3, 4, 5, 6, 7, 0, 0, 0, 0, 0]\<rparr>) \<and>
   capacity \<lparr>capacity = 8, count = 8, itemSize = 1, items = [0, 1, 2, 3, 4, 5, 6, 7 :: byte]\<rparr> < 9 \<and>
   scu_list_newInternal 1 (Some (\<lambda>k. 0)) =
     Some (Some \<lparr>capacity = 8, count = 0, itemSize = 1, items = [0, 0, 0, 0, 0, 0, 0, 0]\<rparr>) \<and>
   length [([0], None), ([1], None), ([2], None), ([3], None), ([4], None), ([5], None),
           ([6], None), ([7], None), ([8 :: byte], Some (\<lambda>k :: nat. 0 :: byte))] = 9 \<and>
   scu_add_each \<lparr>capacity = 8, count = 0, itemSize = 1, items = [0, 0, 0, 0, 0, 0, 0, 0]\<rparr>
       [([0], None), ([1], None), ([2], None), ([3], None), ([4], None), ([5], None),
        ([6], None), ([7], None), ([8], Some (\<lambda>k. 0))] =
     Some (SCU_ERROR_NONE,
       \<lparr>capacity = 13, count = 9, itemSize = 1, items = [0, 1, 2, 3, 4, 5, 6, 7, 8, 0, 0, 0, 0]\<rparr>) \<and>
   scu_list_elems
       \<lparr>capacity = 13, count = 9, itemSize = 1, items = [0, 1, 2, 3, 4, 5, 6, 7, 8, 0, 0, 0, 0]\<rparr> =
     [[0], [1], [2], [3], [4], [5], [6], [7], [8]] \<and>
   list_all (\<lambda>x. 1 \<le> int (length (fst x)))
     [([0], None), ([1], None), ([2], None), ([3], None), ([4], None), ([5], None),
      ([6], None), ([7], None), ([8 :: byte], Some (\<lambda>k :: nat. 0 :: byte))] \<and>
   snd ([([0], None), ([1], None), ([2], None), ([3], None), ([4], None), ([5], None),
         ([6], None), ([7], None), ([8 :: byte], Some (\<lambda>k :: nat. 0 :: byte))] ! 8) \<noteq> None \<and>
   13 * 1 \<le> INT64_MAX \<and>
   capacity \<lparr>capacity = 13, count = 8, itemSize = 1,
              items = [0, 1, 2, 3, 4, 5, 6, 7, 0, 0, 0, 0, 0 :: byte]\<rparr> = grow_step (max 8 8)"
proof -
  let ?a = "\<lparr>capacity = 8, count = 8, itemSize = 1, items = [0, 1, 2, 3, 4, 5, 6, 7 :: byte]\<rparr>"
  let ?a' = "\<lparr>capacity = 13, count = 8, itemSize = 1,
              items = [0, 1, 2, 3, 4, 5, 6, 7, 0, 0, 0, 0, 0 :: byte]\<rparr>"
  let ?l0 = "\<lparr>capacity = 8, count = 0, itemSize = 1, items = [0, 0, 0, 0, 0, 0, 0, 0 :: byte]\<rparr>"
  let ?xs = "[([0], None), ([1], None), ([2], None), ([3], None), ([4], None), ([5], None),
              ([6], None), ([7], None), ([8 :: byte], Some (\<lambda>k :: nat. 0 :: byte))]"
  let ?l9 = "\<lparr>capacity = 13, count = 9, itemSize = 1,
              items = [0, 1, 2, 3, 4, 5, 6, 7, 8, 0, 0, 0, 0 :: byte]\<rparr>"
  have e: "scu_list_ensureCapacityInternal ?a 9 (Some (\<lambda>k. 0)) = Some (SCU_ERROR_NONE, ?a')"
    by code_simp
  have n: "scu_list_newInternal 1 (Some (\<lambda>k. 0)) = Some (Some ?l0)"
    by code_simp
  have a: "scu_add_each ?l0 ?xs = Some (SCU_ERROR_NONE, ?l9)"
    by code_simp
  have len: "length ?xs = 9" by simp
  have h: "scu_list_newInternal 1 (Some (\<lambda>k. 0)) = Some (Some ?l0) \<and> length ?xs = 9 \<and>
           scu_add_each ?l0 ?xs = Some (SCU_ERROR_NONE, ?l9)"
    using n len a by (intro conjI)
  note T = ensureCapacity_growth[where isz = 1 and ?mem0.0 = "Some (\<lambda>k. 0)" and ?l0.0 = ?l0
      and xs = ?xs and ?l9.0 = ?l9]
  from T[THEN conjunct2, THEN conjunct1, THEN mp, OF h]
  have "scu_list_elems ?l9 = map (\<lambda>x. take (nat 1) (fst x)) ?xs" by (elim conjE) assumption
  then have el: "scu_list_elems ?l9 = [[0], [1], [2], [3], [4], [5], [6], [7], [8]]" by simp
  have it: "list_all (\<lambda>x. 1 \<le> int (length (fst x))) ?xs" by simp
  have al: "snd (?xs ! 8) \<noteq> None" by simp
  have fit: "13 * 1 \<le> INT64_MAX" by (simp add: INT64_MAX_def)
  have g: "capacity ?a' = grow_step (max 8 8)" by (simp add: grow_step_def)
  from e n a len el it al fit g show ?thesis by simp
qed

section \<open>Range operations against single steps\<close>

text \<open>
  When the growth loop reaches a capacity for some count it reaches one for every smaller
  count, so the single inserts that build up a range never need more room than the range
  insertion itself.
\<close>

lemma scu_grow_loop_prefix:
  assumes "scu_grow_loop x b = Some y"
  shows "0 < x \<longrightarrow> (\<forall>a. a \<le> b \<longrightarrow> (\<exists>y'. scu_grow_loop x a = Some y' \<and> y' \<le> y))"
proof (rule scu_grow_loop.raw_induct[OF _ assms], goal_cases)
  case (1 loop x b y)
  show ?case
  proof (intro impI allI)
    fix a assume pos: "0 < x" and ab: "a \<le> b"
    show "\<exists>y'. scu_grow_loop x a = Some y' \<and> y' \<le> y"
    proof (cases "x < b")
      case False
      with 1(2) have "y = x" by simp
      moreover have "scu_grow_loop x a = Some x" using False ab by (intro scu_grow_loop_done) simp
      ultimately show ?thesis by simp
    next
      case True
      from 1(2) True have bd: "mul64 x 3 \<bind> (\<lambda>t. div64 t 2 \<bind> (\<lambda>d. add64 d 1 \<bind> (\<lambda>n. loop n b))) = Some y"
        by simp
      then have r: "in_int64 (x * 3)" by (auto simp: bind_eq_Some_conv)
      have t: "trunc_div (x * 3) 2 = x * 3 div 2" using pos by (simp add: trunc_div_nonneg)
      from bd r have lp: "loop (grow_step x) b = Some y"
        by (auto simp: bind_eq_Some_conv t grow_step_def)
      from 1(1)[OF lp] grow_step_pos[OF pos] pos
      have ih: "\<forall>a. a \<le> b \<longrightarrow> (\<exists>y'. scu_grow_loop (grow_step x) a = Some y' \<and> y' \<le> y)" by simp
      show ?thesis
      proof (cases "x < a")
        case True
        have "scu_grow_loop x a = scu_grow_loop (grow_step x) a"
          using True pos r by (intro scu_grow_loop_step) (simp_all add: in_int64_def)
        with ih ab show ?thesis by simp
      next
        case False
        then have d: "scu_grow_loop x a = Some x" by (rule scu_grow_loop_done)
        from ih obtain y' where "scu_grow_loop (grow_step x) b = Some y'" "y' \<le> y" by blast
        moreover from scu_grow_loop_chain[OF this(1)] grow_step_pos[OF pos] pos
        have "grow_step x \<le> y'" by simp
        ultimately have "x \<le> y" using grow_step_pos[OF pos] by simp
        with d show ?thesis by simp
      qed
    qed
  qed
qed

lemma capacity_for_prefix:
  assumes "scu_capacity_for c b = Some y" "a \<le> b"
  shows "\<exists>y'. scu_capacity_for c a = Some y' \<and> y' \<le> y"
proof -
  let ?x = "SCU_MAX c SCU_INITIAL_CAPACITY"
  have x: "0 < ?x" "c \<le> ?x" by (simp_all add: SCU_MAX_def SCU_INITIAL_CAPACITY_def)
  show ?thesis
  proof (cases "c < a")
    case True
    then have cb: "c < b" using assms(2) by simp
    with assms(1) have g: "scu_grow_loop ?x b = Some y" by (simp add: scu_capacity_for_def)
    from scu_grow_loop_prefix[OF g] x(1) assms(2) show ?thesis
      using True by (simp add: scu_capacity_for_def)
  next
    case False
    have "c \<le> y"
    proof (cases "c < b")
      case True
      with assms(1) have g: "scu_grow_loop ?x b = Some y" by (simp add: scu_capacity_for_def)
      from scu_grow_loop_chain[OF g] x show ?thesis by simp
    next
      case False
      with assms(1) show ?thesis by (simp add: scu_capacity_for_def)
    qed
    with False show ?thesis by (simp add: scu_capacity_for_def)
  qed
qed

lemma insertAt_defined:
  assumes v: "scu_list_valid l" and i: "0 \<le> i" "i \<le> count l"
    and x: "itemSize l \<le> int (length x)"
    and e: "scu_list_ensureCapacityInternal l (count l + 1) mem = Some (SCU_ERROR_NONE, l1)"
  shows "\<exists>l'. scu_list_insertAtInternal l i x mem = Some (SCU_ERROR_NONE, l')"
proof -
  from ensure_ok[OF v e] have v1: "scu_list_valid l1" and c1: "count l1 = count l"
    and s1: "itemSize l1 = itemSize l" and cap1: "count l + 1 \<le> capacity l1" by simp_all
  let ?s = "itemSize l" let ?c = "count l" let ?B = "items l1"
  have c0: "0 \<le> ?c" and sz: "0 < ?s" using v by (simp_all add: scu_list_valid_def)
  note R = valid_count_in_int64[OF v1, unfolded s1]
  have r1: "in_int64 (?c + 1)" using R(1)[of "?c + 1"] c0 cap1 by simp
  have r2: "in_int64 (i + 1)" using R(1)[of "i + 1"] i cap1 by simp
  have r3: "in_int64 ((i + 1) * ?s)" using R(2)[of "i + 1"] i cap1 by simp
  have r4: "in_int64 (i * ?s)" using R(2)[of i] i cap1 by simp
  have r5: "in_int64 (?c - i)" using R(1)[of "?c - i"] i cap1 by simp
  have r6: "in_int64 ((?c - i) * ?s)" using R(2)[of "?c - i"] i cap1 by simp
  have lenB: "int (length ?B) = capacity l1 * ?s" using v1 s1 by (simp add: scu_list_valid_def)
  have top: "(?c + 1) * ?s \<le> int (length ?B)" using R(3)[of "?c + 1"] c0 cap1 lenB by simp
  have nn: "0 \<le> i * ?s" "0 \<le> (i + 1) * ?s" "0 \<le> (?c - i) * ?s" using i sz by simp_all
  have b1: "(i + 1) * ?s + (?c - i) * ?s \<le> int (length ?B)"
  proof -
    have "(i + 1) * ?s + (?c - i) * ?s = (?c + 1) * ?s" by (simp add: algebra_simps)
    with top show ?thesis by simp
  qed
  have b2: "i * ?s + (?c - i) * ?s \<le> int (length ?B)"
  proof -
    have "i * ?s + (?c - i) * ?s = ?c * ?s" by (simp add: algebra_simps)
    moreover have "?c * ?s \<le> (?c + 1) * ?s" using sz by (simp add: distrib_right)
    ultimately show ?thesis using top by simp
  qed
  note mv = memmove_defined[OF nn(2) nn(1) nn(3) b1 b2]
  let ?moved = "take (nat ((i + 1) * ?s)) ?B @ take (nat ((?c - i) * ?s)) (drop (nat (i * ?s)) ?B) @
                drop (nat ((i + 1) * ?s) + nat ((?c - i) * ?s)) ?B"
  have lm: "length ?moved = length ?B"
    using nn b1 b2 by (simp add: nat_le_iff)
  have b3: "i * ?s + ?s \<le> int (length ?moved)"
  proof -
    have "i * ?s + ?s \<le> (?c + 1) * ?s" using i(2) sz by (simp add: distrib_right mult_right_mono)
    with top lm show ?thesis by simp
  qed
  show ?thesis
    using i e r1 r2 r3 r4 r5 r6 mv b3 nn sz x
    by (simp add: scu_list_insertAtInternal_def add64_def sub64_def mul64_def scu_list_itemAt_def
        memcpy_def c1 s1)
qed

lemma insert_each_defined:
  assumes "scu_list_valid l" "0 \<le> i" "i \<le> count l"
    "int (length mems) * itemSize l \<le> int (length src)"
    "list_all (\<lambda>m. m \<noteq> None) mems"
    "scu_capacity_for (capacity l) (count l + int (length mems)) = Some C"
    "C * itemSize l \<le> INT64_MAX"
  shows "\<exists>l2. scu_insert_each l i src mems = Some (SCU_ERROR_NONE, l2)"
  using assms
proof (induction mems arbitrary: l i src)
  case Nil
  then show ?case by simp
next
  case (Cons m ms)
  let ?s = "itemSize l"
  have sz: "0 < ?s" and c0: "0 \<le> count l" using Cons.prems(1) by (simp_all add: scu_list_valid_def)
  have m: "m \<noteq> None" and ms: "list_all (\<lambda>m. m \<noteq> None) ms" using Cons.prems(5) by simp_all
  have ab: "count l + 1 \<le> count l + int (length (m # ms))" by simp
  from capacity_for_prefix[OF Cons.prems(6) ab] obtain y' where
    k1: "scu_capacity_for (capacity l) (count l + 1) = Some y'" and y': "y' \<le> C" by blast
  have "y' * ?s \<le> C * ?s" using y' sz by (simp add: mult_right_mono)
  then have fit: "y' * ?s \<le> INT64_MAX" using Cons.prems(7) by simp
  have n0: "0 \<le> count l + 1" using c0 by simp
  from ensure_defined[OF Cons.prems(1) n0, of m y'] m k1 fit obtain l1 where
    e: "scu_list_ensureCapacityInternal l (count l + 1) m = Some (SCU_ERROR_NONE, l1)" by blast
  have "(1 + int (length ms)) * ?s \<le> int (length src)" using Cons.prems(4) by (simp add: add.commute)
  then have xs: "?s + int (length ms) * ?s \<le> int (length src)" by (simp add: distrib_right)
  have "0 \<le> int (length ms) * ?s" using sz by simp
  with xs have x: "?s \<le> int (length src)" by linarith
  from insertAt_defined[OF Cons.prems(1,2,3) x e] obtain l' where
    a: "scu_list_insertAtInternal l i src m = Some (SCU_ERROR_NONE, l')" by blast
  from insertAt_ok[OF Cons.prems(1) a] e
  have v': "scu_list_valid l'" and c': "count l' = count l + 1" and s': "itemSize l' = ?s"
    and cap': "capacity l' = capacity l1" by auto
  have k1': "scu_capacity_for (capacity l) (count l + 1) = Some (capacity l')"
    using ensure_capacity_for[OF e] cap' by simp
  have kC: "scu_capacity_for (capacity l') (count l' + int (length ms)) = Some C"
    using capacity_for_compose[OF k1', of "count l + int (length (m # ms))"] Cons.prems(6) c'
    by (simp add: add.assoc)
  have ls: "int (length ms) * itemSize l' \<le> int (length (drop (nat ?s) src))"
    using xs sz s' by simp
  have "\<exists>l2. scu_insert_each l' (i + 1) (drop (nat ?s) src) ms = Some (SCU_ERROR_NONE, l2)"
    using Cons.prems(2,3,7) c' s' ms kC ls by (intro Cons.IH[OF v']) auto
  with a show ?case by simp
qed

text \<open>
  The pointer \<open>items\<close> of \<open>insertRange\<close> may point into the list's own block. The
  items are then read after the tail has been moved to the right, so with the list
  \<open>[10, 20, 30, 40]\<close> and \<open>items\<close> pointing at its third item, \<open>insertRange(0, items, 2)\<close>
  ends in \<open>[10, 20, 10, 20, 30, 40]\<close>, whereas inserting the two items \<open>30\<close> and \<open>40\<close>
  one after the other at \<open>0\<close> and \<open>1\<close> ends in \<open>[30, 40, 10, 20, 30, 40]\<close>.
\<close>

theorem insertRange_from_inside_differs:
  "scu_list_insertRangeInternal
       \<lparr>capacity = 8, count = 4, itemSize = 1, items = [10, 20, 30, 40, 0, 0, 0, 0]\<rparr>
       0 (Inside 2) 2 None =
     Some (SCU_ERROR_NONE,
       \<lparr>capacity = 8, count = 6, itemSize = 1, items = [10, 20, 10, 20, 30, 40, 0, 0]\<rparr>) \<and>
   scu_insert_each
       \<lparr>capacity = 8, count = 4, itemSize = 1, items = [10, 20, 30, 40, 0, 0, 0, 0]\<rparr>
       0 (drop 2 [10, 20, 30, 40, 0, 0, 0, 0]) [None, None] =
     Some (SCU_ERROR_NONE,
       \<lparr>capacity = 8, count = 6, itemSize = 1, items = [30, 40, 10, 20, 30, 40, 0, 0]\<rparr>) \<and>
   scu_list_elems \<lparr>capacity = 8, count = 6, itemSize = 1, items = [10, 20, 10, 20, 30, 40, 0, 0]\<rparr> =
     [[10], [20], [10], [20], [30], [40]] \<and>
   scu_list_elems \<lparr>capacity = 8, count = 6, itemSize = 1, items = [30, 40, 10, 20, 30, 40, 0, 0]\<rparr> =
     [[30], [40], [10], [20], [30], [40]] \<and>
   scu_list_elems \<lparr>capacity = 8, count = 6, itemSize = 1, items = [10, 20, 10, 20, 30, 40, 0, 0]\<rparr> \<noteq>
   scu_list_elems \<lparr>capacity = 8, count = 6, itemSize = 1, items = [30, 40, 10, 20, 30, 40, 0, 0]\<rparr>"
  by code_simp

text \<open>
  Claim C6, for \<open>items\<close> pointing to an object of the caller outside the list's block. On a
  live list, a successful \<open>insertRange(i, items, n)\<close> and \<open>n\<close> successful single inserts
  of the same items, the first at \<open>i\<close>, the next at \<open>i + 1\<close> and so on (\<open>n\<close> is the
  number of allocator answers \<open>mems\<close>), end in the same list: equal count, capacity, item
  size, live bytes and items. When \<open>insertRange\<close> has succeeded, the \<open>n\<close> single inserts
  succeed as well, provided the allocator answers each of their requests with a block. For
  every valid range, \<open>removeRange(i, n)\<close> and \<open>n\<close> single removals at \<open>i\<close> both succeed
  and end in the same list in that sense. Bytes beyond the count are not part of the list and
  may differ, as the witness shows.
\<close>

theorem range_equals_single_steps:
  assumes v: "scu_list_valid l"
  shows "(scu_list_insertRangeInternal l i (Object src) (int (length mems)) mem = Some (SCU_ERROR_NONE, l1) \<and>
          scu_insert_each l i src mems = Some (SCU_ERROR_NONE, l2) \<longrightarrow>
          count l1 = count l2 \<and> capacity l1 = capacity l2 \<and> itemSize l1 = itemSize l2 \<and>
          scu_live l1 = scu_live l2 \<and> scu_list_elems l1 = scu_list_elems l2) \<and>
         (scu_list_insertRangeInternal l i (Object src) (int (length mems)) mem = Some (SCU_ERROR_NONE, l1) \<and>
          list_all (\<lambda>m. m \<noteq> None) mems \<longrightarrow>
          (\<exists>l3. scu_insert_each l i src mems = Some (SCU_ERROR_NONE, l3))) \<and>
         (0 \<le> i \<and> i + int n \<le> count l \<longrightarrow>
          (\<exists>r1 r2. scu_list_removeRangeInternal l i (int n) = Some (SCU_ERROR_NONE, r1) \<and>
                   scu_remove_each l i n = Some (SCU_ERROR_NONE, r2) \<and>
                   count r1 = count r2 \<and> capacity r1 = capacity r2 \<and> itemSize r1 = itemSize r2 \<and>
                   scu_live r1 = scu_live r2 \<and> scu_list_elems r1 = scu_list_elems r2))"
proof -
  have sz: "0 < itemSize l" using v by (simp add: scu_list_valid_def)
  have A: "count l1 = count l2 \<and> capacity l1 = capacity l2 \<and> itemSize l1 = itemSize l2 \<and>
           scu_live l1 = scu_live l2 \<and> scu_list_elems l1 = scu_list_elems l2"
    if r: "scu_list_insertRangeInternal l i (Object src) (int (length mems)) mem = Some (SCU_ERROR_NONE, l1)"
      and s: "scu_insert_each l i src mems = Some (SCU_ERROR_NONE, l2)"
  proof (cases "mems = []")
    case True
    with r s have "l1 = l" "l2 = l"
      by (auto simp: scu_list_insertRangeInternal_def split: if_splits)
    then show ?thesis by simp
  next
    case False
    then have pos: "0 < int (length mems)" by simp
    from insertRange_ok[OF v pos r] obtain la where
        i: "0 \<le> i" "i \<le> count l"
      and c1: "count l1 = count l + int (length mems)" and s1: "itemSize l1 = itemSize l"
      and live1: "scu_live l1 = take (nat (i * itemSize l)) (scu_live l) @
                     take (nat (int (length mems) * itemSize l)) src @
                     drop (nat (i * itemSize l)) (scu_live l)"
      and e: "scu_list_ensureCapacityInternal l (count l + int (length mems)) mem = Some (SCU_ERROR_NONE, la)"
      and cap1: "capacity l1 = capacity la"
      by auto
    from insert_each_ok[OF v s] i
    have c2: "count l2 = count l + int (length mems)" and s2: "itemSize l2 = itemSize l"
      and k2: "scu_capacity_for (capacity l) (count l + int (length mems)) = Some (capacity l2)"
      and live2: "scu_live l2 = take (nat (i * itemSize l)) (scu_live l) @
                     take (length mems * nat (itemSize l)) src @
                     drop (nat (i * itemSize l)) (scu_live l)"
      by simp_all
    have "nat (int (length mems) * itemSize l) = length mems * nat (itemSize l)"
      by (simp add: nat_mult_distrib)
    with live1 live2 have live: "scu_live l1 = scu_live l2" by simp
    have cap: "capacity l1 = capacity l2" using ensure_capacity_for[OF e] k2 cap1 by simp
    have "scu_list_elems l1 = scu_list_elems l2"
      using live c1 c2 s1 s2 sz by (intro elems_eq) auto
    with live cap c1 c2 s1 s2 show ?thesis by simp
  qed
  have D: "\<exists>l3. scu_insert_each l i src mems = Some (SCU_ERROR_NONE, l3)"
    if r: "scu_list_insertRangeInternal l i (Object src) (int (length mems)) mem = Some (SCU_ERROR_NONE, l1)"
      and al: "list_all (\<lambda>m. m \<noteq> None) mems"
  proof (cases "mems = []")
    case True
    then show ?thesis by simp
  next
    case False
    then have pos: "0 < int (length mems)" by simp
    from insertRange_ok[OF v pos r] obtain la where
        x: "int (length mems) * itemSize l \<le> int (length src)"
      and i: "0 \<le> i" "i \<le> count l"
      and v1: "scu_list_valid l1" and s1: "itemSize l1 = itemSize l"
      and e: "scu_list_ensureCapacityInternal l (count l + int (length mems)) mem = Some (SCU_ERROR_NONE, la)"
      and cap1: "capacity l1 = capacity la"
      by auto
    have k1: "scu_capacity_for (capacity l) (count l + int (length mems)) = Some (capacity l1)"
      using ensure_capacity_for[OF e] cap1 by simp
    have fit: "capacity l1 * itemSize l \<le> INT64_MAX"
      using v1 s1 by (simp add: scu_list_valid_def)
    from insert_each_defined[OF v i x al k1 fit] show ?thesis .
  qed
  have B: "\<exists>r1 r2. scu_list_removeRangeInternal l i (int n) = Some (SCU_ERROR_NONE, r1) \<and>
                   scu_remove_each l i n = Some (SCU_ERROR_NONE, r2) \<and>
                   count r1 = count r2 \<and> capacity r1 = capacity r2 \<and> itemSize r1 = itemSize r2 \<and>
                   scu_live r1 = scu_live r2 \<and> scu_list_elems r1 = scu_list_elems r2"
    if i: "0 \<le> i" "i + int n \<le> count l"
  proof -
    from remove_each_ok[OF v i] obtain r2 where
        q: "scu_remove_each l i n = Some (SCU_ERROR_NONE, r2)"
      and c2: "count r2 = count l - int n" and s2: "itemSize r2 = itemSize l"
      and cap2: "capacity r2 = capacity l"
      and live2: "scu_live r2 = take (nat (i * itemSize l)) (scu_live l) @
                         drop (nat (i * itemSize l) + n * nat (itemSize l)) (scu_live l)"
      by blast
    show ?thesis
    proof (cases "n = 0")
      case True
      have "i \<le> count l" using i by simp
      with removeRange_zero[OF v i(1)] True
      have "scu_list_removeRangeInternal l i (int n) = Some (SCU_ERROR_NONE, l)"
        by simp
      moreover have "r2 = l" using q True by simp
      ultimately show ?thesis using q by auto
    next
      case False
      then have pos: "0 < int n" by simp
      from removeRange_defined[OF v i(1) pos i(2)] obtain r1 where
          p: "scu_list_removeRangeInternal l i (int n) = Some (SCU_ERROR_NONE, r1)"
        and c1: "count r1 = count l - int n" and s1: "itemSize r1 = itemSize l"
        and cap1: "capacity r1 = capacity l"
        and live1: "scu_live r1 = take (nat (i * itemSize l)) (scu_live l) @
                         drop (nat (i * itemSize l) + nat (int n * itemSize l)) (scu_live l)"
        by blast
      have "nat (int n * itemSize l) = n * nat (itemSize l)" by (simp add: nat_mult_distrib)
      with live1 live2 have live: "scu_live r1 = scu_live r2" by simp
      have "scu_list_elems r1 = scu_list_elems r2"
        using live c1 c2 s1 s2 sz by (intro elems_eq) auto
      with p q live c1 c2 s1 s2 cap1 cap2 show ?thesis by auto
    qed
  qed
  from A D B show ?thesis by blast
qed

theorem range_equals_single_steps_witness:
  "scu_list_valid \<lparr>capacity = 5, count = 5, itemSize = 1, items = [10, 20, 30, 40, 50]\<rparr> \<and>
   scu_list_insertRangeInternal \<lparr>capacity = 5, count = 5, itemSize = 1, items = [10, 20, 30, 40, 50]\<rparr>
       1 (Object [7, 8]) (int (length [Some (\<lambda>k. 0), Some (\<lambda>k. 2)])) (Some (\<lambda>k. 1)) =
     Some (SCU_ERROR_NONE,
       \<lparr>capacity = 8, count = 7, itemSize = 1, items = [10, 7, 8, 20, 30, 40, 50, 1]\<rparr>) \<and>
   list_all (\<lambda>m. m \<noteq> None) [Some (\<lambda>k :: nat. 0 :: byte), Some (\<lambda>k. 2)] \<and>
   scu_insert_each \<lparr>capacity = 5, count = 5, itemSize = 1, items = [10, 20, 30, 40, 50]\<rparr>
       1 [7, 8] [Some (\<lambda>k. 0), Some (\<lambda>k. 2)] =
     Some (SCU_ERROR_NONE,
       \<lparr>capacity = 8, count = 7, itemSize = 1, items = [10, 7, 8, 20, 30, 40, 50, 0]\<rparr>) \<and>
   scu_list_elems \<lparr>capacity = 8, count = 7, itemSize = 1, items = [10, 7, 8, 20, 30, 40, 50, 1]\<rparr> =
   scu_list_elems \<lparr>capacity = 8, count = 7, itemSize = 1, items = [10, 7, 8, 20, 30, 40, 50, 0]\<rparr> \<and>
   (0::int) \<le> 1 \<and> 1 + int 2 \<le> count \<lparr>capacity = 5, count = 5, itemSize = 1, items = [10, 20, 30, 40, 50]\<rparr> \<and>
   scu_list_removeRangeInternal \<lparr>capacity = 5, count = 5, itemSize = 1, items = [10, 20, 30, 40, 50]\<rparr>
       1 (int 2) =
     Some (SCU_ERROR_NONE, \<lparr>capacity = 5, count = 3, itemSize = 1, items = [10, 40, 50, 40, 50]\<rparr>) \<and>
   scu_remove_each \<lparr>capacity = 5, count = 5, itemSize = 1, items = [10, 20, 30, 40, 50]\<rparr> 1 2 =
     Some (SCU_ERROR_NONE, \<lparr>capacity = 5, count = 3, itemSize = 1, items = [10, 40, 50, 50, 50]\<rparr>) \<and>
   scu_list_elems \<lparr>capacity = 5, count = 3, itemSize = 1, items = [10, 40, 50, 40, 50]\<rparr> =
   scu_list_elems \<lparr>capacity = 5, count = 3, itemSize = 1, items = [10, 40, 50, 50, 50]\<rparr>"
proof -
  let ?l = "\<lparr>capacity = 5, count = 5, itemSize = 1, items = [10, 20, 30, 40, 50 :: byte]\<rparr>"
  let ?a = "\<lparr>capacity = 8, count = 7, itemSize = 1, items = [10, 7, 8, 20, 30, 40, 50, 1 :: byte]\<rparr>"
  let ?b = "\<lparr>capacity = 8, count = 7, itemSize = 1, items = [10, 7, 8, 20, 30, 40, 50, 0 :: byte]\<rparr>"
  let ?c = "\<lparr>capacity = 5, count = 3, itemSize = 1, items = [10, 40, 50, 40, 50 :: byte]\<rparr>"
  let ?d = "\<lparr>capacity = 5, count = 3, itemSize = 1, items = [10, 40, 50, 50, 50 :: byte]\<rparr>"
  let ?ms = "[Some (\<lambda>k :: nat. 0 :: byte), Some (\<lambda>k. 2)]"
  have v: "scu_list_valid ?l" by (simp add: scu_list_valid_def INT64_MAX_def)
  have r: "scu_list_insertRangeInternal ?l 1 (Object [7, 8]) (int (length ?ms))
             (Some (\<lambda>k. 1)) = Some (SCU_ERROR_NONE, ?a)"
    by code_simp
  have al: "list_all (\<lambda>m. m \<noteq> None) ?ms" by simp
  have s: "scu_insert_each ?l 1 [7, 8] ?ms = Some (SCU_ERROR_NONE, ?b)"
    by code_simp
  have p: "scu_list_removeRangeInternal ?l 1 (int 2) = Some (SCU_ERROR_NONE, ?c)"
    by code_simp
  have q: "scu_remove_each ?l 1 2 = Some (SCU_ERROR_NONE, ?d)"
    by code_simp
  note T = range_equals_single_steps[OF v, of 1 "[7, 8]" ?ms "Some (\<lambda>k. 1)" ?a ?b 2]
  from T r s have e1: "scu_list_elems ?a = scu_list_elems ?b" by blast
  from T p q have e2: "scu_list_elems ?c = scu_list_elems ?d" by auto
  from v r al s p q e1 e2 show ?thesis by simp
qed

section \<open>Calls that return and the invariant\<close>

text \<open>
  Whenever a call on a live list has a defined result, the list after it is live again and
  its item size is the one it had: the invariant is kept by every call that returns.
\<close>

lemma call_error_unchanged:
  assumes "scu_list_call l c = Some (e, l')" "e \<noteq> SCU_ERROR_NONE"
  shows "l' = l"
proof (cases c)
  case (Add item mem)
  with assms show ?thesis
    by (auto simp: scu_list_addInternal_def bind_eq_Some_conv split: if_splits dest: ensure_error)
next
  case (AddRange src n mem)
  with assms show ?thesis
    by (auto simp: scu_list_addRangeInternal_def bind_eq_Some_conv split: if_splits dest: ensure_error)
next
  case (InsertAt i item mem)
  with assms show ?thesis
    by (auto simp: scu_list_insertAtInternal_def bind_eq_Some_conv split: if_splits dest: ensure_error)
next
  case (InsertRange i src n mem)
  with assms show ?thesis
    by (auto simp: scu_list_insertRangeInternal_def bind_eq_Some_conv split: if_splits dest: ensure_error)
next
  case (RemoveAt i)
  with assms show ?thesis
    by (auto simp: scu_list_removeAtInternal_def bind_eq_Some_conv split: if_splits)
next
  case (RemoveRange i n)
  with assms show ?thesis
    by (auto simp: scu_list_removeRangeInternal_def bind_eq_Some_conv split: if_splits)
next
  case Clear
  with assms show ?thesis by simp
next
  case (EnsureCapacity n mem)
  with assms show ?thesis by (auto dest: ensure_error)
next
  case (TrimToCount mem)
  with assms show ?thesis
    by (auto simp: scu_list_trimToCountInternal_def bind_eq_Some_conv split: if_splits option.splits)
qed

lemma call_invalid_argument:
  assumes "scu_list_call l c = Some (SCU_ERROR_INVALID_ARGUMENT, l')"
  shows "l' = l"
  using assms by (rule call_error_unchanged) simp

lemma trim_ok:
  assumes v: "scu_list_valid l"
    and r: "scu_list_trimToCountInternal l mem = Some (SCU_ERROR_NONE, l')"
  shows "scu_list_valid l' \<and> itemSize l' = itemSize l \<and> count l' = count l \<and> scu_live l' = scu_live l"
proof (cases "capacity l > count l")
  case False
  with r have "l' = l" by (simp add: scu_list_trimToCountInternal_def)
  with v show ?thesis by simp
next
  case True
  from r True obtain blk where
      b: "SCU_REALLOC (items l) (count l * itemSize l) mem = Some blk"
    and l': "l' = l\<lparr>capacity := count l, items := blk\<rparr>"
    by (auto simp: scu_list_trimToCountInternal_def bind_eq_Some_conv split: option.splits)
  have c: "0 \<le> count l" "count l \<le> capacity l" using v by (simp_all add: scu_list_valid_def)
  note R = valid_count_in_int64[OF v c]
  have lb: "length blk = nat (count l * itemSize l)" by (rule SCU_REALLOC_length[OF b])
  have "nat (count l * itemSize l) \<le> length (items l)"
    using R(3) v by (simp add: scu_list_valid_def nat_le_iff)
  then have "take (nat (count l * itemSize l)) blk = take (nat (count l * itemSize l)) (items l)"
    by (intro SCU_REALLOC_take[OF b]) auto
  then have live: "scu_live l' = scu_live l" by (simp add: scu_live_def l')
  have "scu_list_valid l'"
    using v lb R(2,4) by (simp add: scu_list_valid_def l' in_int64_def)
  with live show ?thesis by (simp add: l')
qed

lemma call_preserves_valid:
  assumes v: "scu_list_valid l" and r: "scu_list_call l c = Some (e, l')"
  shows "scu_list_valid l' \<and> itemSize l' = itemSize l"
proof (cases "e = SCU_ERROR_NONE")
  case False
  with call_error_unchanged[OF r] have "l' = l" by simp
  with v show ?thesis by simp
next
  case True
  show ?thesis
  proof (cases c)
    case (Add item mem)
    with r True add_ok[OF v, of item mem l'] show ?thesis by simp
  next
    case (AddRange src n mem)
    show ?thesis
    proof (cases "0 < n")
      case True
      with r \<open>e = SCU_ERROR_NONE\<close> AddRange addRange_ok[OF v True, of src mem l'] show ?thesis by auto
    next
      case False
      with r \<open>e = SCU_ERROR_NONE\<close> AddRange have "l' = l"
        by (auto simp: scu_list_addRangeInternal_def split: if_splits)
      with v show ?thesis by simp
    qed
  next
    case (InsertAt i item mem)
    with r True insertAt_ok[OF v, of i item mem l'] show ?thesis by simp
  next
    case (InsertRange i src n mem)
    show ?thesis
    proof (cases "0 < n")
      case True
      with r \<open>e = SCU_ERROR_NONE\<close> InsertRange insertRange_ok[OF v True, of i src mem l']
      show ?thesis by auto
    next
      case False
      with r \<open>e = SCU_ERROR_NONE\<close> InsertRange have "l' = l"
        by (auto simp: scu_list_insertRangeInternal_def split: if_splits)
      with v show ?thesis by simp
    qed
  next
    case (RemoveAt i)
    with r True have i: "0 \<le> i" "i < count l"
      by (auto simp: scu_list_removeAtInternal_def split: if_splits)
    from removeAt_defined[OF v i] r RemoveAt True show ?thesis by auto
  next
    case (RemoveRange i n)
    with r True have i: "0 \<le> i" "0 \<le> n" "i + n \<le> count l"
      by (auto simp: scu_list_removeRangeInternal_def bind_eq_Some_conv split: if_splits)
    show ?thesis
    proof (cases "0 < n")
      case True
      from removeRange_defined[OF v i(1) True i(3)] r RemoveRange \<open>e = SCU_ERROR_NONE\<close>
      show ?thesis by auto
    next
      case False
      with i have "n = 0" by simp
      with r RemoveRange \<open>e = SCU_ERROR_NONE\<close> have "l' = l"
        by (auto simp: scu_list_removeRangeInternal_def bind_eq_Some_conv split: if_splits)
      with v show ?thesis by simp
    qed
  next
    case Clear
    with r v show ?thesis
      by (auto simp: scu_list_clearInternal_def scu_list_valid_def)
  next
    case (EnsureCapacity n mem)
    with r True ensure_ok[OF v, of n mem l'] show ?thesis by simp
  next
    case (TrimToCount mem)
    with r True trim_ok[OF v, of mem l'] show ?thesis by simp
  qed
qed

lemma calls_preserve_valid:
  assumes "scu_list_valid l" "scu_list_calls l cs = Some l'"
  shows "scu_list_valid l' \<and> itemSize l' = itemSize l"
  using assms
proof (induction cs arbitrary: l)
  case Nil
  then show ?case by simp
next
  case (Cons c cs)
  from Cons.prems(2) obtain e l1 where
      r: "scu_list_call l c = Some (e, l1)" and rest: "scu_list_calls l1 cs = Some l'"
    by (auto split: option.splits)
  from call_preserves_valid[OF Cons.prems(1) r] Cons.IH[OF _ rest] show ?case by simp
qed

text \<open>
  The argument checks of the source: each of these calls is answered with
  \<open>SCU_ERROR_INVALID_ARGUMENT\<close> and the list is left as it was. For \<open>removeRange\<close>
  the last check needs the sum of index and count to fit \<^verbatim>\<open>int64_t\<close>.
\<close>

lemma rejected_arguments:
  "n < 0 \<Longrightarrow> scu_list_ensureCapacityInternal l n mem = Some (SCU_ERROR_INVALID_ARGUMENT, l)"
  "n < 0 \<Longrightarrow> scu_list_addRangeInternal l src n mem = Some (SCU_ERROR_INVALID_ARGUMENT, l)"
  "i < 0 \<or> i > count l \<Longrightarrow>
     scu_list_insertAtInternal l i item mem = Some (SCU_ERROR_INVALID_ARGUMENT, l)"
  "i < 0 \<or> i > count l \<or> n < 0 \<Longrightarrow>
     scu_list_insertRangeInternal l i src n mem = Some (SCU_ERROR_INVALID_ARGUMENT, l)"
  "i < 0 \<or> i \<ge> count l \<Longrightarrow> scu_list_removeAtInternal l i = Some (SCU_ERROR_INVALID_ARGUMENT, l)"
  "i < 0 \<or> n < 0 \<or> (in_int64 (i + n) \<and> i + n > count l) \<Longrightarrow>
     scu_list_removeRangeInternal l i n = Some (SCU_ERROR_INVALID_ARGUMENT, l)"
  by (auto simp: scu_list_ensureCapacityInternal_def scu_list_addRangeInternal_def
      scu_list_insertAtInternal_def scu_list_insertRangeInternal_def scu_list_removeAtInternal_def
      scu_list_removeRangeInternal_def add64_def)

section \<open>Arguments that overflow the range check\<close>

text \<open>
  Claim C1 (the invariant after every call of every sequence) fails on the code. A list is
  created with the default capacity for 4-byte items and \<open>removeRange\<close> is called with
  index \<open>2^63 - 1\<close> and count \<open>1\<close>. The range check of the source adds index and
  count in \<^verbatim>\<open>int64_t\<close>, which overflows: the call has no defined result, so no list
  state that satisfies \<open>0 \<le> count \<le> capacity\<close> is guaranteed after it.
\<close>

theorem calls_overflowing_removeRange_undefined:
  "scu_list_newInternal 4 (Some (\<lambda>k. 0)) =
     Some (Some \<lparr>capacity = 8, count = 0, itemSize = 4, items = replicate 32 0\<rparr>) \<and>
   scu_list_calls \<lparr>capacity = 8, count = 0, itemSize = 4, items = replicate 32 0\<rparr>
     [RemoveRange 9223372036854775807 1] = None"
  by code_simp

text \<open>
  Claim C7 (every violated precondition is answered with \<open>SCU_ERROR_INVALID_ARGUMENT\<close>)
  fails on the code for \<open>removeRange\<close>. On a list of three items, the range of index
  \<open>2^63 - 1\<close> and count \<open>1\<close> is not a range of the list, but the sum the range check
  computes overflows \<^verbatim>\<open>int64_t\<close>: the call has no defined result, and in particular
  it does not return \<open>SCU_ERROR_INVALID_ARGUMENT\<close> with the list unchanged.
\<close>

theorem removeRange_overflowing_range_not_rejected:
  "scu_list_removeRangeInternal \<lparr>capacity = 3, count = 3, itemSize = 1, items = [10, 20, 30]\<rparr>
     9223372036854775807 1 = None \<and>
   scu_list_removeRangeInternal \<lparr>capacity = 3, count = 3, itemSize = 1, items = [10, 20, 30]\<rparr>
     9223372036854775807 1 \<noteq>
     Some (SCU_ERROR_INVALID_ARGUMENT, \<lparr>capacity = 3, count = 3, itemSize = 1, items = [10, 20, 30]\<rparr>)"
  by code_simp

section \<open>Seeding the generator\<close>









end
